theory Spec2Isabelle
  imports Main "HOL-Library.Sublist" "HOL-Library.Multiset" "HOL-Library.List_Lexorder"
begin

section \<open>Promises and the existence probes\<close>

text \<open>
  A settled promise is a sum: \<open>Inl\<close> a rejection (the thrown value), \<open>Inr\<close> the value it
  was fulfilled with. The thrown values the code looks at are Node's errno exceptions,
  read through their \<open>code\<close>, and the TypeError of a property read on \<open>undefined\<close>.
\<close>

datatype exc = ErrnoException string | TypeError

type_synonym 'a promise = "exc + 'a"

fun exc_code :: "exc \<Rightarrow> string option" where
  "exc_code (ErrnoException c) = Some c"
| "exc_code TypeError = None"

text \<open>The \<open>Stats\<close> object of \<open>stat\<close>/\<open>lstat\<close>, reduced to what \<open>isDirectory()\<close> answers.\<close>

datatype stats = Stats bool

fun stats_isDirectory :: "stats \<Rightarrow> bool" where
  "stats_isDirectory (Stats d) = d"

definition then_promise :: "('a \<Rightarrow> 'b) \<Rightarrow> 'a promise \<Rightarrow> 'b promise" where
  "then_promise f p = (case p of Inl e \<Rightarrow> Inl e | Inr v \<Rightarrow> Inr (f v))"

definition catch_promise :: "(exc \<Rightarrow> 'a) \<Rightarrow> 'a promise \<Rightarrow> 'a promise" where
  "catch_promise h p = (case p of Inl e \<Rightarrow> Inr (h e) | Inr v \<Rightarrow> Inr v)"

text \<open>
  Functions.ts, \<open>exists\<close> and \<open>isDirectory\<close>: \<open>lstat\<close> is the filesystem's answer for
  each path at the moment of the call.
\<close>

definition exists_path :: "('p \<Rightarrow> stats promise) \<Rightarrow> 'p \<Rightarrow> bool promise" where
  "exists_path lstat p =
     (case lstat p of
        Inr st \<Rightarrow> Inr True
      | Inl err \<Rightarrow> if exc_code err = Some ''ENOENT'' then Inr False else Inl err)"

definition isDirectory :: "('p \<Rightarrow> stats promise) \<Rightarrow> 'p \<Rightarrow> bool promise" where
  "isDirectory lstat p =
     (case lstat p of
        Inr st \<Rightarrow> Inr (stats_isDirectory st)
      | Inl err \<Rightarrow> if exc_code err = Some ''ENOENT'' then Inr False else Inl err)"

text \<open>
  FolderDeletionWatcher.ts has a probe of its own:
  \<open>stat(path).then(stats => stats.isDirectory()).catch(err => false)\<close>.
\<close>

definition isDirectory_FDW :: "('p \<Rightarrow> stats promise) \<Rightarrow> 'p \<Rightarrow> bool promise" where
  "isDirectory_FDW stat p =
     catch_promise (\<lambda>err. False) (then_promise stats_isDirectory (stat p))"

text \<open>A filesystem on which every \<open>stat\<close> is refused with EACCES.\<close>

definition stat_EACCES :: "string \<Rightarrow> stats promise" where
  "stat_EACCES p = Inl (ErrnoException ''EACCES'')"

section \<open>FolderDeletionWatcher\<close>

text \<open>
  Paths are strings. \<open>Path.dirname\<close> and \<open>Path.basename\<close> are those of Node's
  \<open>path.posix\<close>, which scan the string from its end. \<open>dirname\<close> leaves out the first
  character while it scans, skips the trailing slashes, then the last name, and cuts
  at the slash before it; \<open>basename\<close> is the last name, trailing slashes left out.
\<close>

definition dirname :: "string \<Rightarrow> string" where
  "dirname p =
     (if p = [] then ''.''
      else
        let hasRoot = (hd p = CHR ''/'');
            r = dropWhile (\<lambda>c. c \<noteq> CHR ''/'') (dropWhile (\<lambda>c. c = CHR ''/'') (rev (tl p)))
        in if r = [] then (if hasRoot then ''/'' else ''.'')
           else if hasRoot \<and> length r = 1 then ''//''
           else take (length r) p)"

definition basename :: "string \<Rightarrow> string" where
  "basename p =
     rev (takeWhile (\<lambda>c. c \<noteq> CHR ''/'') (dropWhile (\<lambda>c. c = CHR ''/'') (rev p)))"

text \<open>
  \<open>levels p\<close>: the path and what \<open>Path.dirname\<close> makes of it step by step, the
  outermost first, short of the path that \<open>dirname\<close> leaves as it is (\<open>/\<close> or \<open>.\<close>).
  These are the paths \<open>_startParent\<close> is called with before it returns at once. Each
  step makes \<open>path_measure\<close> smaller.
\<close>

definition path_measure :: "string \<Rightarrow> nat" where
  "path_measure p = (if p = ''.'' then 0 else if p = [] then 2 else length p + 1)"

function levels :: "string \<Rightarrow> string list" where
  "levels p = (if p = dirname p then [] else levels (dirname p) @ [p])"
  by pat_completeness auto
termination
proof (relation "measure path_measure")
  show "wf (measure path_measure)" by simp
next
  fix p :: string
  assume neq: "p \<noteq> dirname p"
  have "path_measure (dirname p) < path_measure p"
  proof (cases "p = []")
    case True
    then show ?thesis by (simp add: dirname_def path_measure_def)
  next
    case False
    define r1 where "r1 = dropWhile (\<lambda>c. c = CHR ''/'') (rev (tl p))"
    define r where "r = dropWhile (\<lambda>c. c \<noteq> CHR ''/'') r1"
    have d: "dirname p = (if r = [] then (if hd p = CHR ''/'' then ''/'' else ''.'')
                          else if hd p = CHR ''/'' \<and> length r = 1 then ''//''
                          else take (length r) p)"
      unfolding dirname_def Let_def r_def r1_def using False by (simp only: if_False)
    have m: "path_measure q = length q + 1" if "q \<noteq> []" "q \<noteq> ''.''" for q
      using that unfolding path_measure_def by (simp only: if_False)
    have mle: "path_measure q \<le> length q + 1" if "q \<noteq> []" for q
      using that unfolding path_measure_def by (simp only: if_False split: if_split) simp
    have len: "length r + 2 \<le> length p" if "r \<noteq> []"
    proof -
      from that have "r1 \<noteq> []" unfolding r_def by auto
      then have "hd r1 \<noteq> CHR ''/''"
        unfolding r1_def using hd_dropWhile[of "\<lambda>c. c = CHR ''/''" "rev (tl p)"] by blast
      with \<open>r1 \<noteq> []\<close> have "r = dropWhile (\<lambda>c. c \<noteq> CHR ''/'') (tl r1)"
        unfolding r_def by (cases r1) simp_all
      then have "length r \<le> length (tl r1)" by (simp only: length_dropWhile_le)
      also have "\<dots> < length r1" using \<open>r1 \<noteq> []\<close> by (cases r1) simp_all
      also have "length r1 \<le> length (rev (tl p))"
        unfolding r1_def by (rule length_dropWhile_le)
      finally have "length r < length (tl p)" by simp
      then show ?thesis by simp
    qed
    show ?thesis
    proof (cases "r = []")
      case True
      show ?thesis
      proof (cases "hd p = CHR ''/''")
        case True
        with \<open>r = []\<close> d have dp: "dirname p = [CHR ''/'']" by simp
        obtain c cs where p: "p = c # cs" using False by (cases p) auto
        with True have c: "c = CHR ''/''" by simp
        from neq dp p c have "cs \<noteq> []" by auto
        then have "2 \<le> length p" unfolding p by (cases cs) simp_all
        moreover have "p \<noteq> ''.''" using \<open>cs \<noteq> []\<close> p by auto
        ultimately have "3 \<le> path_measure p" using m[OF False] by simp
        moreover have "path_measure [CHR ''/''] \<le> 2" using mle[of "[CHR ''/'']"] by simp
        ultimately show ?thesis unfolding dp by linarith
      next
        case False
        with \<open>r = []\<close> d have dp: "dirname p = ''.''" by simp
        with neq have "p \<noteq> ''.''" by metis
        with m[OF \<open>p \<noteq> []\<close>] have "0 < path_measure p" by simp
        moreover have "path_measure ''.'' = 0" by (simp add: path_measure_def)
        ultimately show ?thesis unfolding dp by simp
      qed
    next
      case rne: False
      from len[OF rne] have l2: "length r + 2 \<le> length p" .
      then have "2 \<le> length p" by simp
      then have pdot: "p \<noteq> ''.''" by auto
      have mp: "path_measure p = length p + 1" by (rule m[OF False pdot])
      show ?thesis
      proof (cases "hd p = CHR ''/'' \<and> length r = 1")
        case True
        with rne d have dp: "dirname p = [CHR ''/'', CHR ''/'']" by simp
        have "path_measure [CHR ''/'', CHR ''/''] \<le> 3"
          using mle[of "[CHR ''/'', CHR ''/'']"] by simp
        moreover from l2 True have "3 \<le> length p" by simp
        ultimately show ?thesis unfolding dp mp by linarith
      next
        case False
        with rne d have dp: "dirname p = take (length r) p" by auto
        have tl: "length (take (length r) p) = length r" using l2 by simp
        have "0 < length r" using rne by simp
        with tl have "take (length r) p \<noteq> []" by auto
        from mle[OF this] tl have "path_measure (take (length r) p) \<le> length r + 1" by simp
        with l2 show ?thesis unfolding dp mp by linarith
      qed
    qed
  qed
  then show "(dirname p, p) \<in> measure path_measure" by simp
qed

datatype METHODS = Interval | Parent

definition METHOD :: METHODS where
  "METHOD = Parent"

text \<open>
  One \<open>FS.watch\<close> subscription of \<open>_startParent\<close>: the directory watched, the entry
  name its listener compares with, the shared context the listener resolves, the
  AbortController whose signal its \<open>cleanup\<close> listens to (none when
  \<open>this._abortController\<close> was undefined at set-up) and whether \<open>close()\<close> has run.
\<close>

record fs_watcher =
  parentPath :: string
  filename :: string
  sharedContext :: nat
  signal :: "nat option"
  closed :: bool

text \<open>One \<open>setInterval\<close> timer of \<open>_startInterval\<close>.\<close>

record stat_interval =
  interval_signal :: "nat option"
  cleared :: bool

text \<open>
  The watcher object with everything that hangs on it. AbortControllers are numbered in
  the order of their creation; \<open>abortController\<close> is the field \<open>_abortController\<close>.
  \<open>starting\<close> counts the calls of \<open>start()\<close> suspended at \<open>await isDirectory\<close>,
  \<open>polling\<close> the timer callbacks suspended there. \<open>resolved\<close> holds one flag per shared
  context created (a promise settles once). \<open>fired\<close> counts the calls of the user's
  callback. \<open>rejections\<close> keeps what a call of \<open>start()\<close> was rejected with: the
  constructor calls \<open>start()\<close> and drops its promise.
\<close>

record FolderDeletionWatcher =
  watched :: string
  abortController :: "nat option"
  controllers :: nat
  starting :: nat
  polling :: nat
  resolved :: "bool list"
  watchers :: "fs_watcher list"
  intervals :: "stat_interval list"
  fired :: nat
  rejections :: "exc list"

text \<open>\<open>AbortController.abort()\<close>: every \<open>cleanup\<close> registered on the signal runs.\<close>

definition cleanup_watcher :: "nat \<Rightarrow> fs_watcher \<Rightarrow> fs_watcher" where
  "cleanup_watcher c fw = (if signal fw = Some c then fw\<lparr>closed := True\<rparr> else fw)"

definition cleanup_interval :: "nat \<Rightarrow> stat_interval \<Rightarrow> stat_interval" where
  "cleanup_interval c iv = (if interval_signal iv = Some c then iv\<lparr>cleared := True\<rparr> else iv)"

definition abort :: "nat \<Rightarrow> FolderDeletionWatcher \<Rightarrow> FolderDeletionWatcher" where
  "abort c w = w\<lparr>watchers := map (cleanup_watcher c) (watchers w),
                 intervals := map (cleanup_interval c) (intervals w)\<rparr>"

definition stop :: "FolderDeletionWatcher \<Rightarrow> FolderDeletionWatcher" where
  "stop w = (case abortController w of
               None \<Rightarrow> w
             | Some c \<Rightarrow> (abort c w)\<lparr>abortController := None\<rparr>)"

text \<open>The user's callback.\<close>

definition callback :: "FolderDeletionWatcher \<Rightarrow> FolderDeletionWatcher" where
  "callback w = w\<lparr>fired := Suc (fired w)\<rparr>"

text \<open>
  \<open>start()\<close> up to its \<open>await\<close>, and its continuation once the probe has answered
  (\<open>start_resume\<close>, further down). Between the two, anything else may run, and no
  \<open>FS.watch\<close> subscription exists yet.
\<close>

definition start :: "FolderDeletionWatcher \<Rightarrow> FolderDeletionWatcher" where
  "start w =
     (if abortController w = None
      then w\<lparr>abortController := Some (controllers w),
              controllers := Suc (controllers w),
              starting := Suc (starting w)\<rparr>
      else w)"

text \<open>
  \<open>_startInterval\<close> and \<open>_startParent\<close>. Both read \<open>this._abortController?.signal\<close>
  when they register their \<open>cleanup\<close>. \<open>FS.watch\<close> throws when it cannot subscribe
  (the directory is gone, no descriptor is left): \<open>fswatch d\<close> is what it throws for
  the directory \<open>d\<close>, if anything. \<open>_startParent\<close> has no handler: the throw ends every
  call on the way up, the subscriptions made so far stay, and the reaction attached
  to the shared context stays with them.
\<close>

definition createSharedContext :: "FolderDeletionWatcher \<Rightarrow> nat \<times> FolderDeletionWatcher" where
  "createSharedContext w = (length (resolved w), w\<lparr>resolved := resolved w @ [False]\<rparr>)"

definition startInterval :: "FolderDeletionWatcher \<Rightarrow> FolderDeletionWatcher" where
  "startInterval w =
     w\<lparr>intervals := intervals w @
          [\<lparr>interval_signal = abortController w, cleared = False\<rparr>]\<rparr>"

function startParent ::
  "(string \<Rightarrow> exc option) \<Rightarrow> string \<Rightarrow> nat option \<Rightarrow> FolderDeletionWatcher
     \<Rightarrow> exc option \<times> FolderDeletionWatcher" where
  "startParent fswatch p ctx w =
     (if p = dirname p then (None, w)
      else
        let (c, w1) = (case ctx of None \<Rightarrow> createSharedContext w | Some c \<Rightarrow> (c, w))
        in case startParent fswatch (dirname p) (Some c) w1 of
             (Some e, w2) \<Rightarrow> (Some e, w2)
           | (None, w2) \<Rightarrow>
               (case fswatch (dirname p) of
                  Some e \<Rightarrow> (Some e, w2)
                | None \<Rightarrow>
                    (None, w2\<lparr>watchers := watchers w2 @
                       [\<lparr>parentPath = dirname p, filename = basename p, sharedContext = c,
                         signal = abortController w2, closed = False\<rparr>]\<rparr>)))"
  by pat_completeness auto
termination
proof (relation "inv_image {(q, p). p \<noteq> dirname p \<and> q = dirname p}
                   (\<lambda>(fswatch, p, ctx, w). p)")
  have "wf {(q, p). p \<noteq> dirname p \<and> q = dirname p}"
    unfolding wf_def
  proof (intro allI impI)
    fix P :: "string \<Rightarrow> bool" and x :: string
    assume step: "\<forall>x. (\<forall>y. (y, x) \<in> {(q, p). p \<noteq> dirname p \<and> q = dirname p} \<longrightarrow> P y) \<longrightarrow> P x"
    show "P x"
    proof (induction x rule: levels.induct)
      case (1 p)
      have "P y" if "(y, p) \<in> {(q, p). p \<noteq> dirname p \<and> q = dirname p}" for y
      proof -
        from that have "p \<noteq> dirname p" and "y = dirname p" by simp_all
        with "1.IH" show ?thesis by simp
      qed
      with step show ?case by blast
    qed
  qed
  then show "wf (inv_image {(q, p). p \<noteq> dirname p \<and> q = dirname p}
                   (\<lambda>(fswatch, p, ctx, w). p))"
    by (rule wf_inv_image)
next
  fix fswatch :: "string \<Rightarrow> exc option" and p :: string and ctx :: "nat option"
    and w x :: FolderDeletionWatcher and xa :: nat and y
  assume "p \<noteq> dirname p"
  then show "((fswatch, dirname p, Some xa, y), (fswatch, p, ctx, w))
               \<in> inv_image {(q, p). p \<noteq> dirname p \<and> q = dirname p}
                    (\<lambda>(fswatch, p, ctx, w). p)"
    by simp
qed

definition start_resume ::
  "(string \<Rightarrow> exc option) \<Rightarrow> bool \<Rightarrow> FolderDeletionWatcher \<Rightarrow> FolderDeletionWatcher" where
  "start_resume fswatch isDir w =
     (if isDir
      then (if METHOD = Parent
            then (case startParent fswatch (watched w) None w of
                    (None, w1) \<Rightarrow> w1
                  | (Some e, w1) \<Rightarrow> w1\<lparr>rejections := rejections w1 @ [e]\<rparr>)
            else startInterval w)
      else stop w)"

text \<open>The constructor stores the path and calls \<open>start()\<close>.\<close>

definition new_FolderDeletionWatcher :: "string \<Rightarrow> FolderDeletionWatcher" where
  "new_FolderDeletionWatcher p =
     start \<lparr>watched = p, abortController = None, controllers = 0, starting = 0,
            polling = 0, resolved = [], watchers = [], intervals = [], fired = 0,
            rejections = []\<rparr>"

text \<open>
  The reaction attached to a shared context (\<open>sharedContext.promise.then\<close>) and
  \<open>sharedContext.resolve()\<close>: only the first call settles the promise and runs the
  reaction. The reaction is a microtask; it runs before the next native callback.
\<close>

definition resolve :: "nat \<Rightarrow> FolderDeletionWatcher \<Rightarrow> FolderDeletionWatcher" where
  "resolve c w =
     (if c < length (resolved w) \<and> \<not> resolved w ! c
      then callback (stop (w\<lparr>resolved := (resolved w)[c := True]\<rparr>))
      else w)"

text \<open>
  A notification of the native watch primitive: the directory it is about, the event
  kind and the affected entry. \<open>deliver\<close> is the listener of watcher \<open>i\<close>; a closed
  watcher gets nothing. \<open>notify\<close> hands one notification to every subscription in turn;
  where there is no subscription, nobody hears of it.
\<close>

record notification =
  directory :: string
  event :: string
  affectedFile :: string

definition deliver :: "notification \<Rightarrow> nat \<Rightarrow> FolderDeletionWatcher \<Rightarrow> FolderDeletionWatcher" where
  "deliver n i w =
     (if i < length (watchers w) \<and> \<not> closed (watchers w ! i)
         \<and> parentPath (watchers w ! i) = directory n
         \<and> event n = ''rename'' \<and> affectedFile n = filename (watchers w ! i)
      then resolve (sharedContext (watchers w ! i)) w
      else w)"

definition notify :: "notification \<Rightarrow> FolderDeletionWatcher \<Rightarrow> FolderDeletionWatcher" where
  "notify n w = fold (deliver n) [0..<length (watchers w)] w"

text \<open>
  The timer callback of \<open>_startInterval\<close>, up to its \<open>await\<close>, for timer \<open>i\<close>, and
  its continuation once the probe has answered.
\<close>

definition interval_tick :: "nat \<Rightarrow> FolderDeletionWatcher \<Rightarrow> FolderDeletionWatcher" where
  "interval_tick i w =
     (if i < length (intervals w) \<and> \<not> cleared (intervals w ! i)
      then w\<lparr>polling := Suc (polling w)\<rparr>
      else w)"

definition interval_resume :: "bool \<Rightarrow> FolderDeletionWatcher \<Rightarrow> FolderDeletionWatcher" where
  "interval_resume isDir w = (if isDir then callback (stop w) else w)"

text \<open>
  What can happen to a watcher: a call of \<open>stop()\<close> or \<open>start()\<close>, the answer of
  \<open>stat\<close> reaching a suspended \<open>start()\<close> (with what \<open>FS.watch\<close> will do from then on)
  or a suspended timer callback, a timer going off, a notification of the watch
  primitive.
\<close>

datatype fdw_event =
    CallStop
  | CallStart
  | StartProbed "stats promise" "string \<Rightarrow> exc option"
  | Tick nat
  | IntervalProbed "stats promise"
  | Notify notification

text \<open>
  The value \<open>await isDirectory( path )\<close> yields when \<open>stat\<close> settles as \<open>r\<close>; the
  probe of this file never rejects.
\<close>

definition probe_answer :: "string \<Rightarrow> stats promise \<Rightarrow> bool" where
  "probe_answer p r = (case isDirectory_FDW (\<lambda>q. r) p of Inr b \<Rightarrow> b | Inl e \<Rightarrow> False)"

fun fdw_step :: "fdw_event \<Rightarrow> FolderDeletionWatcher \<Rightarrow> FolderDeletionWatcher" where
  "fdw_step CallStop w = stop w"
| "fdw_step CallStart w = start w"
| "fdw_step (StartProbed r fswatch) w =
     (if starting w = 0 then w
      else start_resume fswatch (probe_answer (watched w) r) (w\<lparr>starting := starting w - 1\<rparr>))"
| "fdw_step (Tick i) w = interval_tick i w"
| "fdw_step (IntervalProbed r) w =
     (if polling w = 0 then w
      else interval_resume (probe_answer (watched w) r) (w\<lparr>polling := polling w - 1\<rparr>))"
| "fdw_step (Notify n) w = notify n w"

definition fdw_run :: "fdw_event list \<Rightarrow> FolderDeletionWatcher \<Rightarrow> FolderDeletionWatcher" where
  "fdw_run es w = fold fdw_step es w"

text \<open>
  What the watch primitive reports when the directory \<open>a\<close> is removed, or renamed
  away: a \<open>rename\<close> of its name in its parent directory.
\<close>

definition removal :: "string \<Rightarrow> notification" where
  "removal a = \<lparr>directory = dirname a, event = ''rename'', affectedFile = basename a\<rparr>"

definition is_directory :: "stats promise" where
  "is_directory = Inr (Stats True)"

definition not_found :: "stats promise" where
  "not_found = Inl (ErrnoException ''ENOENT'')"

text \<open>\<open>FS.watch\<close> subscribing wherever it is asked to, and failing wherever it is.\<close>

definition watch_succeeds :: "string \<Rightarrow> exc option" where
  "watch_succeeds d = None"

definition watch_ENOENT :: "string \<Rightarrow> exc option" where
  "watch_ENOENT d = Some (ErrnoException ''ENOENT'')"

section \<open>MountMonitor\<close>

subsection \<open>The host and the raw records\<close>

datatype platform = Darwin | Linux | Win32

text \<open>
  What the code takes from the host and from its libraries: \<open>process.platform\<close>,
  \<open>String.prototype.toUpperCase\<close>, the collation behind \<open>localeCompare\<close> (\<open>a\<close> sorts
  before \<open>b\<close> when its collation key is smaller) and \<open>UUID.v5\<close> under the namespace
  constant of the module.
\<close>

record 'k host =
  platform :: platform
  toUpperCase :: "string \<Rightarrow> string"
  collation :: "string \<Rightarrow> 'k"
  uuid_v5 :: "string \<Rightarrow> string"

text \<open>
  A size as systeminformation reports it: a number, or no size (a value whose
  \<open>String(...)\<close> is the empty string).
\<close>

datatype reported_size = Size int | NoSize

record blockDevice =
  bd_name :: string
  bd_label :: string
  bd_fsType :: string
  bd_mount :: string
  bd_physical :: string
  bd_protocol :: string
  bd_removable :: bool
  bd_serial :: string
  bd_size :: reported_size
  bd_uuid :: string

record fsSize =
  fs_fs :: string
  fs_mount :: string
  fs_size :: reported_size

record mountpoint =
  mp_path :: string
  mp_label :: string

text \<open>
  \<open>FileSystem\<close>. The code reads \<open>mountpoints[0]\<close> without a check and builds every
  value with exactly one mount point, so the array is held as its first element and
  the rest.
\<close>

record FileSystem =
  device :: string
  label :: string
  filesystem :: string
  mount :: string
  mountpoints :: "mountpoint \<times> mountpoint list"
  protocol :: string
  removable :: bool
  serial :: string
  size_of :: reported_size
  uuid :: string

definition path0 :: "FileSystem \<Rightarrow> string" where
  "path0 fs = mp_path (fst (mountpoints fs))"

datatype FileSystemEvent =
    Mount FileSystem
  | Unmount FileSystem
  | Rename FileSystem FileSystem

fun event_type :: "FileSystemEvent \<Rightarrow> string" where
  "event_type (Mount fs) = ''mount''"
| "event_type (Unmount fs) = ''unmount''"
| "event_type (Rename fs old) = ''rename''"

fun event_filesystem :: "FileSystemEvent \<Rightarrow> FileSystem" where
  "event_filesystem (Mount fs) = fs"
| "event_filesystem (Unmount fs) = fs"
| "event_filesystem (Rename fs old) = fs"

subsection \<open>The monitor's state\<close>

text \<open>
  One call of \<open>emit\<close>: the event name and the argument, if any. The listeners the
  module registers are \<open>_onMount\<close>, \<open>_onUnmount\<close> and \<open>Config.console.log\<close>.
\<close>

datatype emission = Emit string "FileSystemEvent option"

datatype listener = OnMount | OnUnmount | ConsoleLog

datatype timeout = Timeout

text \<open>
  A call of \<open>intervalFunction\<close> and where it stands. It is suspended twice: at the
  \<open>await\<close> of the enumeration, and at the \<open>await\<close> of its probes, where it holds the
  sorted candidates, each with the \<open>oldFilesystem\<close> its callback read before the probe
  was started. After that it runs to its end in one go.
\<close>

datatype pass =
    Enumerating
  | Probing "(FileSystem \<times> FileSystem option) list"
  | Settled

text \<open>
  The module's variables and the emitter. \<open>filesystemMap\<close> is a JavaScript object: its
  keys keep the order of their insertion, which \<open>Object.values\<close> shows (mount paths are
  not array indices). \<open>deletionWatchers\<close> holds references into \<open>heap\<close>, the watcher
  objects created so far, each with the path its callback closes over. \<open>emitted\<close>
  records every call of \<open>emit\<close>; \<open>passes\<close> holds every call of \<open>intervalFunction\<close>
  made so far, in the order of the calls.
\<close>

record MountMonitor =
  listeners :: "(string \<times> listener) list"
  intervalVar :: "timeout option"
  filesystemMap :: "(string \<times> FileSystem) list"
  deletionWatchers :: "(string \<times> nat) list"
  heap :: "(string \<times> FolderDeletionWatcher) list"
  emitted :: "emission list"
  passes :: "pass list"

definition in_flight :: "MountMonitor \<Rightarrow> nat" where
  "in_flight m = length (filter (\<lambda>ps. ps \<noteq> Settled) (passes m))"

definition obj_set :: "'k \<Rightarrow> 'v \<Rightarrow> ('k \<times> 'v) list \<Rightarrow> ('k \<times> 'v) list" where
  "obj_set k v kvs =
     (if k \<in> fst ` set kvs then map (\<lambda>kv. if fst kv = k then (k, v) else kv) kvs
      else kvs @ [(k, v)])"

definition obj_delete :: "'k \<Rightarrow> ('k \<times> 'v) list \<Rightarrow> ('k \<times> 'v) list" where
  "obj_delete k kvs = filter (\<lambda>kv. fst kv \<noteq> k) kvs"

definition obj_values :: "('k \<times> 'v) list \<Rightarrow> 'v list" where
  "obj_values kvs = map snd kvs"

text \<open>JavaScript's \<open>split\<close> on a one-character separator.\<close>

fun split_on :: "char \<Rightarrow> string \<Rightarrow> string list" where
  "split_on sep [] = [[]]"
| "split_on sep (c # cs) =
     (if c = sep then [] # split_on sep cs
      else (case split_on sep cs of [] \<Rightarrow> [[c]] | s # ss \<Rightarrow> (c # s) # ss))"

text \<open>Running one action after another; a thrown value ends the sequence.\<close>

definition and_then ::
  "exc option \<times> 's \<Rightarrow> ('s \<Rightarrow> exc option \<times> 's) \<Rightarrow> exc option \<times> 's" where
  "and_then r f = (case r of (Some e, m) \<Rightarrow> (Some e, m) | (None, m) \<Rightarrow> f m)"

subsection \<open>The listeners\<close>

definition onMount :: "FileSystemEvent \<Rightarrow> MountMonitor \<Rightarrow> MountMonitor" where
  "onMount ev m =
     (let p = path0 (event_filesystem ev) in
      m\<lparr>filesystemMap := obj_set p (event_filesystem ev) (filesystemMap m),
        deletionWatchers := obj_set p (length (heap m)) (deletionWatchers m),
        heap := heap m @ [(p, new_FolderDeletionWatcher p)]\<rparr>)"

definition onUnmount :: "FileSystemEvent \<Rightarrow> MountMonitor \<Rightarrow> exc option \<times> MountMonitor" where
  "onUnmount ev m =
     (let p = path0 (event_filesystem ev);
          m1 = m\<lparr>filesystemMap := obj_delete p (filesystemMap m)\<rparr>
      in case map_of (deletionWatchers m1) p of
           None \<Rightarrow> (Some TypeError, m1)
         | Some r \<Rightarrow>
             (None, m1\<lparr>heap := (if r < length (heap m1)
                                 then (heap m1)[r := apsnd stop (heap m1 ! r)]
                                 else heap m1),
                        deletionWatchers := obj_delete p (deletionWatchers m1)\<rparr>))"

definition onRename :: "FileSystemEvent \<Rightarrow> MountMonitor \<Rightarrow> exc option \<times> MountMonitor" where
  "onRename ev m = and_then (onUnmount ev m) (\<lambda>m1. (None, onMount ev m1))"

fun call_listener ::
  "listener \<Rightarrow> FileSystemEvent option \<Rightarrow> MountMonitor \<Rightarrow> exc option \<times> MountMonitor" where
  "call_listener ConsoleLog arg m = (None, m)"
| "call_listener OnMount (Some ev) m = (None, onMount ev m)"
| "call_listener OnUnmount (Some ev) m = onUnmount ev m"
| "call_listener l None m = (Some TypeError, m)"

fun run_listeners ::
  "listener list \<Rightarrow> FileSystemEvent option \<Rightarrow> MountMonitor \<Rightarrow> exc option \<times> MountMonitor" where
  "run_listeners [] arg m = (None, m)"
| "run_listeners (l # ls) arg m = and_then (call_listener l arg m) (run_listeners ls arg)"

definition emit :: "string \<Rightarrow> FileSystemEvent option \<Rightarrow> MountMonitor \<Rightarrow> exc option \<times> MountMonitor" where
  "emit name arg m =
     run_listeners (map snd (filter (\<lambda>l. fst l = name) (listeners m))) arg
       (m\<lparr>emitted := emitted m @ [Emit name arg]\<rparr>)"

definition on :: "string \<Rightarrow> listener \<Rightarrow> MountMonitor \<Rightarrow> MountMonitor" where
  "on name l m = m\<lparr>listeners := listeners m @ [(name, l)]\<rparr>"

text \<open>\<open>removeListener\<close> takes out the instance added last.\<close>

definition removeListener :: "string \<Rightarrow> listener \<Rightarrow> MountMonitor \<Rightarrow> MountMonitor" where
  "removeListener name l m = m\<lparr>listeners := rev (remove1 (name, l) (rev (listeners m)))\<rparr>"

text \<open>
  The callback \<open>_onMount\<close> hands to the watcher of path \<open>p\<close> (lines 61 to 69 of
  MountMonitor.ts).
\<close>

definition deletion_callback :: "string \<Rightarrow> MountMonitor \<Rightarrow> exc option \<times> MountMonitor" where
  "deletion_callback p m =
     (case map_of (filesystemMap m) p of
        None \<Rightarrow> (None, m)
      | Some fs \<Rightarrow>
          and_then (emit ''unmount'' (Some (Unmount fs)) m) (\<lambda>m1.
          and_then (emit ''all'' (Some (Unmount fs)) m1) (\<lambda>m2.
          emit ''change'' None m2)))"

subsection \<open>Sorting and the reconciliation pass\<close>

definition sort_label :: "FileSystem \<Rightarrow> string" where
  "sort_label fs = (if label fs = [] then ''Untitled'' else label fs)"

text \<open>
  \<open>Array.prototype.sort\<close> is stable, as \<open>sort_key\<close> is; the comparator of each branch
  compares the collation keys of the upper-cased strings.
\<close>

definition sortFilesystems :: "('k::linorder) host \<Rightarrow> FileSystem list \<Rightarrow> FileSystem list" where
  "sortFilesystems h filesystems =
     (case platform h of
        Darwin \<Rightarrow> sort_key (\<lambda>fs. collation h (toUpperCase h (sort_label fs))) filesystems
      | _ \<Rightarrow> sort_key (\<lambda>fs. collation h (toUpperCase h (path0 fs))) filesystems)"

definition state :: "('k::linorder) host \<Rightarrow> MountMonitor \<Rightarrow> FileSystem list" where
  "state h m = sortFilesystems h (obj_values (filesystemMap m))"

fun IGNORED_MOUNT_POINTS_REGEX :: "platform \<Rightarrow> (string \<Rightarrow> bool) list" where
  "IGNORED_MOUNT_POINTS_REGEX Darwin =
     [\<lambda>s. s = [], prefix ''/private/'', \<lambda>s. s = ''/Volumes/Recovery'', prefix ''/System/'']"
| "IGNORED_MOUNT_POINTS_REGEX Linux = []"
| "IGNORED_MOUNT_POINTS_REGEX Win32 = []"

definition not_ignored :: "platform \<Rightarrow> string \<Rightarrow> bool" where
  "not_ignored pf mnt = list_all (\<lambda>regEx. regEx mnt = False) (IGNORED_MOUNT_POINTS_REGEX pf)"

definition has_size :: "reported_size \<Rightarrow> bool" where
  "has_size sz = (case sz of Size n \<Rightarrow> True | NoSize \<Rightarrow> False)"

definition filteredDevices :: "platform \<Rightarrow> blockDevice list \<Rightarrow> blockDevice list" where
  "filteredDevices pf devices =
     filter (\<lambda>dev. bd_protocol dev \<noteq> ''Disk Image'')
       (filter (\<lambda>dev. bd_physical dev \<noteq> ''Network'')
         (filter (\<lambda>dev. has_size (bd_size dev))
           (filter (\<lambda>dev. not_ignored pf (bd_mount dev)) devices)))"

definition filteredFileSystems :: "platform \<Rightarrow> blockDevice list \<Rightarrow> fsSize list \<Rightarrow> fsSize list" where
  "filteredFileSystems pf devs filesystems =
     filter (\<lambda>fs. length (filter (\<lambda>dev. bd_mount dev = fs_mount fs) devs) = 0)
       (filter (\<lambda>fs. has_size (fs_size fs))
         (filter (\<lambda>fs. not_ignored pf (fs_mount fs)) filesystems))"

definition Path_sep :: "platform \<Rightarrow> char" where
  "Path_sep pf = (case pf of Win32 \<Rightarrow> CHR 0x5C | _ \<Rightarrow> CHR ''/'')"

definition of_device :: "blockDevice \<Rightarrow> FileSystem" where
  "of_device dev =
     \<lparr>device = bd_name dev, label = bd_label dev, filesystem = bd_fsType dev,
      mount = bd_mount dev,
      mountpoints = (\<lparr>mp_path = bd_mount dev, mp_label = bd_label dev\<rparr>, []),
      protocol = bd_protocol dev, removable = bd_removable dev, serial = bd_serial dev,
      size_of = bd_size dev, uuid = bd_uuid dev\<rparr>"

definition of_filesystem :: "'k host \<Rightarrow> fsSize \<Rightarrow> FileSystem" where
  "of_filesystem h fs =
     (let lbl = last (split_on (Path_sep (platform h)) (fs_fs fs)) in
      \<lparr>device = fs_fs fs, label = lbl, filesystem = ''SMB'', mount = fs_mount fs,
       mountpoints = (\<lparr>mp_path = fs_mount fs, mp_label = lbl\<rparr>, []),
       protocol = ''SMB'', removable = True, serial = [],
       size_of = fs_size fs, uuid = uuid_v5 h (fs_fs fs)\<rparr>)"

definition unsortedState :: "'k host \<Rightarrow> blockDevice list \<Rightarrow> fsSize list \<Rightarrow> FileSystem list" where
  "unsortedState h devices filesystems =
     (let devs = filteredDevices (platform h) devices in
      map of_device devs
      @ map (of_filesystem h) (filteredFileSystems (platform h) devs filesystems))"

definition newState :: "('k::linorder) host \<Rightarrow> blockDevice list \<Rightarrow> fsSize list \<Rightarrow> FileSystem list" where
  "newState h devices filesystems = sortFilesystems h (unsortedState h devices filesystems)"

definition uuidFilesystemMap :: "FileSystem list \<Rightarrow> (string \<times> FileSystem) list" where
  "uuidFilesystemMap fss = fold (\<lambda>fs R. obj_set (uuid fs) fs R) fss []"

text \<open>
  What one pass is given: the outcome of the two enumeration calls under
  \<open>Promise.all\<close>, the filesystem's answers to \<open>lstat\<close>, and for the probe of each
  candidate (by its position in \<open>newState\<close>) the time its \<open>lstat\<close> takes. The probes
  are all started in one go; each callback resumes when its own probe has answered.
\<close>

record pass_env =
  enumeration :: "(blockDevice list \<times> fsSize list) promise"
  lstat_of :: "string \<Rightarrow> stats promise"
  latency :: "nat \<Rightarrow> nat"

definition completion_order :: "(nat \<Rightarrow> nat) \<Rightarrow> nat \<Rightarrow> nat list" where
  "completion_order lat n = sort_key lat [0..<n]"

text \<open>
  The callbacks of \<open>newState.map\<close>, resumed in the order in which their probes answer:
  each had read \<open>oldFilesystem\<close> before its \<open>await\<close>. The first rejection rejects
  \<open>Promise.all\<close>.
\<close>

fun resume_probes ::
  "(string \<Rightarrow> stats promise) \<Rightarrow> (FileSystem \<times> FileSystem option) list \<Rightarrow> exc + FileSystemEvent list" where
  "resume_probes lst [] = Inr []"
| "resume_probes lst ((fs, oldFilesystem) # rest) =
     (case isDirectory lst (path0 fs) of
        Inl e \<Rightarrow> Inl e
      | Inr d \<Rightarrow>
          (case resume_probes lst rest of
             Inl e \<Rightarrow> Inl e
           | Inr evs \<Rightarrow> Inr ((if d \<and> oldFilesystem = None then [Mount fs] else []) @ evs)))"

definition mount_events :: "pass_env \<Rightarrow> FileSystem list \<Rightarrow> MountMonitor \<Rightarrow> exc + FileSystemEvent list" where
  "mount_events env ns m =
     resume_probes (lstat_of env)
       (map (\<lambda>i. (ns ! i, map_of (filesystemMap m) (path0 (ns ! i))))
            (completion_order (latency env) (length ns)))"

definition old_events :: "(string \<times> FileSystem) list \<Rightarrow> FileSystem list \<Rightarrow> FileSystemEvent list" where
  "old_events um olds =
     concat (map (\<lambda>oldFilesystem.
        (case map_of um (uuid oldFilesystem) of
           None \<Rightarrow> [Unmount oldFilesystem]
         | Some fs \<Rightarrow> if label fs \<noteq> label oldFilesystem then [Rename fs oldFilesystem] else []))
      olds)"

definition pass_events ::
  "('k::linorder) host \<Rightarrow> pass_env \<Rightarrow> FileSystem list \<Rightarrow> MountMonitor \<Rightarrow> exc + FileSystemEvent list" where
  "pass_events h env ns m =
     (case mount_events env ns m of
        Inl e \<Rightarrow> Inl e
      | Inr mounts \<Rightarrow> Inr (mounts @ old_events (uuidFilesystemMap ns) (state h m)))"

fun emit_events :: "FileSystemEvent list \<Rightarrow> MountMonitor \<Rightarrow> exc option \<times> MountMonitor" where
  "emit_events [] m = (None, m)"
| "emit_events (ev # evs) m =
     and_then (emit (event_type ev) (Some ev) m) (\<lambda>m1.
     and_then (emit ''all'' (Some ev) m1) (emit_events evs))"

text \<open>
  \<open>intervalFunction\<close> in one piece: a call whose enumeration and probes answer with
  nothing else running in between. The timeline further down takes the call apart at
  its two \<open>await\<close>s.
\<close>

definition intervalFunction ::
  "('k::linorder) host \<Rightarrow> pass_env \<Rightarrow> MountMonitor \<Rightarrow> exc option \<times> MountMonitor" where
  "intervalFunction h env m =
     (case enumeration env of
        Inl e \<Rightarrow> (Some e, m)
      | Inr (devices, filesystems) \<Rightarrow>
          (case pass_events h env (newState h devices filesystems) m of
             Inl e \<Rightarrow> (Some e, m)
           | Inr events \<Rightarrow>
               and_then (emit_events events m) (\<lambda>m1.
               and_then (emit ''changed'' None m1) (emit ''refresh'' None))))"

subsection \<open>Starting, stopping and the timer\<close>

text \<open>
  A call of \<open>intervalFunction\<close> runs up to the \<open>await\<close> of the enumeration
  (\<open>begin_pass\<close>). When the enumeration has answered it filters and sorts, starts the
  probes, each callback reading \<open>filesystemMap[ path ]\<close> first, and waits for them
  (\<open>enumerated\<close>). When the probes have answered it takes the mount events in the order
  of the answers, reads \<open>MountMonitor.state\<close> as it is by then, and emits (\<open>probed\<close>).
  A rejection at either \<open>await\<close> ends the call, and nobody handles it.
\<close>

definition begin_pass :: "MountMonitor \<Rightarrow> MountMonitor" where
  "begin_pass m = m\<lparr>passes := passes m @ [Enumerating]\<rparr>"

definition enumerated ::
  "('k::linorder) host \<Rightarrow> nat \<Rightarrow> (blockDevice list \<times> fsSize list) promise
     \<Rightarrow> MountMonitor \<Rightarrow> MountMonitor" where
  "enumerated h k r m =
     (if k < length (passes m) \<and> passes m ! k = Enumerating
      then (case r of
              Inl e \<Rightarrow> m\<lparr>passes := (passes m)[k := Settled]\<rparr>
            | Inr (devices, filesystems) \<Rightarrow>
                m\<lparr>passes := (passes m)[k := Probing
                     (map (\<lambda>fs. (fs, map_of (filesystemMap m) (path0 fs)))
                          (newState h devices filesystems))]\<rparr>)
      else m)"

definition probed ::
  "('k::linorder) host \<Rightarrow> nat \<Rightarrow> (string \<Rightarrow> stats promise) \<Rightarrow> (nat \<Rightarrow> nat)
     \<Rightarrow> MountMonitor \<Rightarrow> MountMonitor" where
  "probed h k lst lat m =
     (if k < length (passes m)
      then (case passes m ! k of
              Probing cs \<Rightarrow>
                (let m0 = m\<lparr>passes := (passes m)[k := Settled]\<rparr> in
                 case resume_probes lst
                        (map (\<lambda>i. cs ! i) (completion_order lat (length cs))) of
                   Inl e \<Rightarrow> m0
                 | Inr mounts \<Rightarrow>
                     snd (and_then
                            (emit_events
                               (mounts @ old_events (uuidFilesystemMap (map fst cs)) (state h m0))
                               m0)
                            (\<lambda>m1. and_then (emit ''changed'' None m1) (emit ''refresh'' None))))
            | _ \<Rightarrow> m)
      else m)"

text \<open>
  \<open>start()\<close> calls \<open>intervalFunction\<close> once, without waiting for it, and arms the timer;
  the timer calls it again at every tick.
\<close>

definition start_monitor :: "MountMonitor \<Rightarrow> MountMonitor" where
  "start_monitor m =
     (if intervalVar m = None
      then (begin_pass
              (on ''unmount'' OnUnmount (on ''onRename'' OnMount (on ''mount'' OnMount m))))
             \<lparr>intervalVar := Some Timeout\<rparr>
      else m)"

definition stop_monitor :: "MountMonitor \<Rightarrow> MountMonitor" where
  "stop_monitor m =
     (if intervalVar m \<noteq> None
      then (removeListener ''unmount'' OnUnmount
             (removeListener ''onRename'' OnMount
               (removeListener ''mount'' OnMount m)))\<lparr>intervalVar := None\<rparr>
      else m)"

text \<open>
  The module as loaded: the maps empty, the monitor started, then \<open>console.log\<close>
  subscribed to \<open>all\<close>.
\<close>

definition module_loaded :: MountMonitor where
  "module_loaded =
     on ''all'' ConsoleLog
       (start_monitor \<lparr>listeners = [], intervalVar = None, filesystemMap = [],
                       deletionWatchers = [], heap = [], emitted = [], passes = []\<rparr>)"

text \<open>
  The monitor's timeline: calls of \<open>start()\<close> and \<open>stop()\<close>; a tick of the timer
  (\<open>setInterval\<close> calls \<open>intervalFunction\<close> and looks at nothing else); the enumeration
  answering the call numbered \<open>k\<close>; the probes of that call answering; the callback of
  the watcher of a path.
\<close>

datatype monitor_event =
    CallMonitorStart
  | CallMonitorStop
  | TimerTick
  | Enumerated nat "(blockDevice list \<times> fsSize list) promise"
  | Probed nat "string \<Rightarrow> stats promise" "nat \<Rightarrow> nat"
  | WatcherCallback string

fun monitor_step :: "('k::linorder) host \<Rightarrow> monitor_event \<Rightarrow> MountMonitor \<Rightarrow> MountMonitor" where
  "monitor_step h CallMonitorStart m = start_monitor m"
| "monitor_step h CallMonitorStop m = stop_monitor m"
| "monitor_step h TimerTick m = (if intervalVar m \<noteq> None then begin_pass m else m)"
| "monitor_step h (Enumerated k r) m = enumerated h k r m"
| "monitor_step h (Probed k lst lat) m = probed h k lst lat m"
| "monitor_step h (WatcherCallback p) m = snd (deletion_callback p m)"

definition monitor_run :: "('k::linorder) host \<Rightarrow> monitor_event list \<Rightarrow> MountMonitor \<Rightarrow> MountMonitor" where
  "monitor_run h es m = fold (monitor_step h) es m"

text \<open>The two answers the call numbered \<open>k\<close> waits for, one right after the other.\<close>

definition uninterrupted :: "nat \<Rightarrow> pass_env \<Rightarrow> monitor_event list" where
  "uninterrupted k env =
     [Enumerated k (enumeration env), Probed k (lstat_of env) (latency env)]"

section \<open>Sample inputs\<close>

definition backup_path :: string where
  "backup_path = ''/Volumes/Backup''"

text \<open>\<open>FS.watch\<close> subscribing to the root directory and to nothing else.\<close>

definition watch_root_only :: "string \<Rightarrow> exc option" where
  "watch_root_only d = (if d = ''/'' then None else Some (ErrnoException ''ENOENT''))"

text \<open>A host for the samples: macOS, ASCII upper-casing, collation by code units.\<close>

definition ascii_toUpperCase :: "string \<Rightarrow> string" where
  "ascii_toUpperCase s =
     map (\<lambda>c. if 97 \<le> (of_char c :: nat) \<and> (of_char c :: nat) \<le> 122
              then char_of (of_char c - 32 :: nat) else c) s"

definition code_units :: "string \<Rightarrow> nat list" where
  "code_units s = map of_char s"

definition v5_sample :: "string \<Rightarrow> string" where
  "v5_sample s = ''v5:'' @ s"

definition darwin :: "nat list host" where
  "darwin = \<lparr>platform = Darwin, toUpperCase = ascii_toUpperCase, collation = code_units,
             uuid_v5 = v5_sample\<rparr>"

definition usb_disk :: "string \<Rightarrow> string \<Rightarrow> string \<Rightarrow> blockDevice" where
  "usb_disk u lbl mnt =
     \<lparr>bd_name = ''disk2s1'', bd_label = lbl, bd_fsType = ''apfs'', bd_mount = mnt,
      bd_physical = ''HDD'', bd_protocol = ''USB'', bd_removable = True, bd_serial = [],
      bd_size = Size 1000, bd_uuid = u\<rparr>"

definition all_directories :: "string \<Rightarrow> stats promise" where
  "all_directories p = Inr (Stats True)"

definition in_turn :: "nat \<Rightarrow> nat" where
  "in_turn i = 0"

definition last_first :: "nat \<Rightarrow> nat" where
  "last_first i = 10 - i"

definition seen :: "blockDevice list \<Rightarrow> pass_env" where
  "seen devs = \<lparr>enumeration = Inr (devs, []), lstat_of = all_directories, latency = in_turn\<rparr>"

definition backup :: blockDevice where
  "backup = usb_disk ''u1'' ''Backup'' ''/Volumes/Backup''"

definition mybackup :: blockDevice where
  "mybackup = usb_disk ''u1'' ''MyBackup'' ''/Volumes/Backup''"

definition alpha :: blockDevice where
  "alpha = usb_disk ''u2'' ''Alpha'' ''/Volumes/Alpha''"

definition beta :: blockDevice where
  "beta = usb_disk ''u3'' ''beta'' ''/Volumes/beta''"

text \<open>A pass in which the probe started first answers last.\<close>

definition slow_first :: pass_env where
  "slow_first = \<lparr>enumeration = Inr ([beta, alpha], []), lstat_of = all_directories,
                 latency = last_first\<rparr>"

text \<open>The monitor after the module is loaded and its first pass has found \<open>backup\<close>.\<close>

definition backup_mounted :: MountMonitor where
  "backup_mounted = monitor_run darwin (uninterrupted 0 (seen [backup])) module_loaded"

text \<open>
  The module is loaded and the enumeration of its first pass has answered with
  \<open>backup\<close>; the probes have not.
\<close>

definition first_pass_probing :: MountMonitor where
  "first_pass_probing =
     monitor_run darwin [Enumerated 0 (enumeration (seen [backup]))] module_loaded"

text \<open>
  The timer ticks while the first pass waits for its enumeration; then both passes
  get the same answers, the first before the second.
\<close>

definition overlapping :: "monitor_event list" where
  "overlapping =
     [TimerTick,
      Enumerated 0 (enumeration (seen [backup])), Enumerated 1 (enumeration (seen [backup])),
      Probed 0 all_directories in_turn, Probed 1 all_directories in_turn]"

fun emission_name :: "emission \<Rightarrow> string" where
  "emission_name (Emit name arg) = name"

section \<open>The chain of subscriptions, armed and spent\<close>

text \<open>
  The subscriptions \<open>_startParent\<close> leaves for a path when every \<open>FS.watch\<close>
  succeeds: one per level, watching the directory above it. \<open>armed\<close> is the watcher
  once \<open>start()\<close> has found a directory and set the chain up, \<open>spent\<close> the same
  watcher after its reaction has run. \<open>gone p n\<close>: the notification \<open>n\<close> reports the
  removal of a level of \<open>p\<close>.
\<close>

definition chain :: "nat \<Rightarrow> nat option \<Rightarrow> string \<Rightarrow> fs_watcher list" where
  "chain c sg p =
     map (\<lambda>a. \<lparr>parentPath = dirname a, filename = basename a, sharedContext = c,
                signal = sg, closed = False\<rparr>) (levels p)"

definition armed :: "string \<Rightarrow> FolderDeletionWatcher" where
  "armed p = \<lparr>watched = p, abortController = Some 0, controllers = 1, starting = 0,
              polling = 0, resolved = [False], watchers = chain 0 (Some 0) p,
              intervals = [], fired = 0, rejections = []\<rparr>"

definition spent :: "string \<Rightarrow> FolderDeletionWatcher" where
  "spent p = \<lparr>watched = p, abortController = None, controllers = 1, starting = 0,
              polling = 0, resolved = [True],
              watchers = map (\<lambda>fw. fw\<lparr>closed := True\<rparr>) (chain 0 (Some 0) p),
              intervals = [], fired = 1, rejections = []\<rparr>"

definition gone :: "string \<Rightarrow> notification \<Rightarrow> bool" where
  "gone p n = list_ex (\<lambda>a. n = removal a) (levels p)"

section \<open>Listeners in place, emissions of a pass\<close>

text \<open>
  \<open>started m\<close>: the timer is armed and the listeners other than \<open>console.log\<close> are
  the three that \<open>start()\<close> registers. \<open>detached m\<close>: no listener but \<open>console.log\<close>
  is left. \<open>emissions_of\<close>: the calls of \<open>emit\<close> that \<open>events.forEach\<close> makes.
\<close>

definition started :: "MountMonitor \<Rightarrow> bool" where
  "started m =
     (intervalVar m \<noteq> None
      \<and> filter (\<lambda>l. snd l \<noteq> ConsoleLog) (listeners m)
          = [(''mount'', OnMount), (''onRename'', OnMount), (''unmount'', OnUnmount)])"

definition detached :: "MountMonitor \<Rightarrow> bool" where
  "detached m = list_all (\<lambda>l. snd l = ConsoleLog) (listeners m)"

text \<open>
  For a stretch of the monitor's timeline: \<open>quiet\<close>, the event is a tick of the timer
  or a watcher's callback, so that no call of \<open>intervalFunction\<close> gets an answer;
  \<open>unattended\<close>, the event is not a call of \<open>start()\<close> or \<open>stop()\<close>; \<open>ticks\<close>, the
  number of ticks.
\<close>

fun quiet :: "monitor_event \<Rightarrow> bool" where
  "quiet TimerTick = True"
| "quiet (WatcherCallback p) = True"
| "quiet e = False"

fun unattended :: "monitor_event \<Rightarrow> bool" where
  "unattended CallMonitorStart = False"
| "unattended CallMonitorStop = False"
| "unattended e = True"

fun is_tick :: "monitor_event \<Rightarrow> bool" where
  "is_tick TimerTick = True"
| "is_tick e = False"

definition ticks :: "monitor_event list \<Rightarrow> nat" where
  "ticks es = length (filter is_tick es)"

definition emissions_of :: "FileSystemEvent list \<Rightarrow> emission list" where
  "emissions_of evs =
     concat (map (\<lambda>ev. [Emit (event_type ev) (Some ev), Emit ''all'' (Some ev)]) evs)"

text \<open>
  For a pass: \<open>confirmed\<close>, the probe finds the candidate's mount path to be a
  directory; \<open>answered\<close>, no probe of the pass is rejected. \<open>sort_key_of\<close> is the key
  \<open>sortFilesystems\<close> compares on the host's platform.
\<close>

definition confirmed :: "pass_env \<Rightarrow> FileSystem \<Rightarrow> bool" where
  "confirmed env fs = (isDirectory (lstat_of env) (path0 fs) = Inr True)"

definition answered :: "pass_env \<Rightarrow> FileSystem list \<Rightarrow> bool" where
  "answered env ns = list_all (\<lambda>fs. isDirectory (lstat_of env) (path0 fs) = Inr True
                                  \<or> isDirectory (lstat_of env) (path0 fs) = Inr False) ns"

definition sort_key_of :: "'k host \<Rightarrow> FileSystem \<Rightarrow> 'k" where
  "sort_key_of h fs =
     (case platform h of
        Darwin \<Rightarrow> collation h (toUpperCase h (sort_label fs))
      | _ \<Rightarrow> collation h (toUpperCase h (path0 fs)))"

section \<open>The existence probes\<close>

lemma isDirectory_not_found:
  "exc_code e = Some ''ENOENT'' \<Longrightarrow> lstat p = Inl e \<Longrightarrow> isDirectory lstat p = Inr False"
  by (simp add: isDirectory_def)

lemma isDirectory_rethrows:
  "exc_code e \<noteq> Some ''ENOENT'' \<Longrightarrow> lstat p = Inl e \<Longrightarrow> isDirectory lstat p = Inl e"
  by (simp add: isDirectory_def)

lemma isDirectory_FDW_never_rejects: "\<exists>b. isDirectory_FDW stat p = Inr b"
  by (cases "stat p") (auto simp: isDirectory_FDW_def then_promise_def catch_promise_def)

lemma isDirectory_FDW_failure: "stat p = Inl e \<Longrightarrow> isDirectory_FDW stat p = Inr False"
  by (simp add: isDirectory_FDW_def then_promise_def catch_promise_def)

text \<open>
  C9, as stated, fails for the probe of FolderDeletionWatcher.ts: a \<open>stat\<close> refused
  with EACCES is not propagated, the probe answers \<open>false\<close>.
\<close>

theorem watcher_probe_swallows_EACCES:
  "stat_EACCES ''/Volumes/Backup'' = Inl (ErrnoException ''EACCES'')
   \<and> isDirectory_FDW stat_EACCES ''/Volumes/Backup'' = Inr False"
  by (simp add: stat_EACCES_def isDirectory_FDW_def then_promise_def catch_promise_def)

text \<open>
  C9, amended: the probe of Functions.ts answers \<open>false\<close> when \<open>lstat\<close> fails with
  ENOENT and rethrows every other failure; the probe of FolderDeletionWatcher.ts
  answers \<open>false\<close> for every failure of \<open>stat\<close> and rethrows none.
\<close>

theorem probes_on_failure:
  assumes "st p = Inl e"
  shows "isDirectory st p = (if exc_code e = Some ''ENOENT'' then Inr False else Inl e)
         \<and> isDirectory_FDW st p = Inr False"
  using assms by (simp add: isDirectory_def isDirectory_FDW_failure)

theorem probes_on_failure_witness:
  "stat_EACCES ''/Volumes/Backup'' = Inl (ErrnoException ''EACCES'')
   \<and> isDirectory stat_EACCES ''/Volumes/Backup'' = Inl (ErrnoException ''EACCES'')
   \<and> isDirectory_FDW stat_EACCES ''/Volumes/Backup'' = Inr False"
proof -
  have h: "stat_EACCES ''/Volumes/Backup'' = Inl (ErrnoException ''EACCES'')"
    by (simp add: stat_EACCES_def)
  from probes_on_failure [of stat_EACCES "''/Volumes/Backup''" "ErrnoException ''EACCES''"] h
  show ?thesis by simp
qed

section \<open>The deletion watcher\<close>

declare startParent.simps [simp del]
declare levels.simps [simp del]

lemma levels_top: "p = dirname p \<Longrightarrow> levels p = []"
  by (subst levels.simps) simp

lemma levels_step: "p \<noteq> dirname p \<Longrightarrow> levels p = levels (dirname p) @ [p]"
  by (subst levels.simps) simp

lemma chain_top: "p = dirname p \<Longrightarrow> chain c sg p = []"
  by (simp add: chain_def levels_top)

lemma chain_step:
  "p \<noteq> dirname p \<Longrightarrow>
     chain c sg p = chain c sg (dirname p)
       @ [\<lparr>parentPath = dirname p, filename = basename p, sharedContext = c,
           signal = sg, closed = False\<rparr>]"
  by (simp add: chain_def levels_step)

lemma length_chain: "length (chain c sg p) = length (levels p)"
  by (simp add: chain_def)

lemma startParent_Some:
  "\<forall>a\<in>set (levels p). fswatch (dirname a) = None \<Longrightarrow>
     startParent fswatch p (Some c) w
       = (None, w\<lparr>watchers := watchers w @ chain c (abortController w) p\<rparr>)"
proof (induction p arbitrary: w rule: levels.induct)
  case (1 p)
  show ?case
  proof (cases "p = dirname p")
    case True
    then have "startParent fswatch p (Some c) w = (None, w)"
      by (subst startParent.simps) simp
    with True show ?thesis by (simp add: chain_top)
  next
    case False
    from "1.prems" have up: "\<forall>a\<in>set (levels (dirname p)). fswatch (dirname a) = None"
      and here: "fswatch (dirname p) = None"
      by (simp_all add: levels_step[OF False])
    have rec: "startParent fswatch (dirname p) (Some c) w
                 = (None, w\<lparr>watchers := watchers w @ chain c (abortController w) (dirname p)\<rparr>)"
      by (rule "1.IH"[OF False up])
    show ?thesis
      using False by (subst startParent.simps) (simp add: rec here chain_step)
  qed
qed

lemma startParent_None:
  assumes "p \<noteq> dirname p" and "\<forall>a\<in>set (levels p). fswatch (dirname a) = None"
  shows "startParent fswatch p None w =
     (None, w\<lparr>resolved := resolved w @ [False],
              watchers := watchers w @ chain (length (resolved w)) (abortController w) p\<rparr>)"
proof -
  from assms have up: "\<forall>a\<in>set (levels (dirname p)). fswatch (dirname a) = None"
    and here: "fswatch (dirname p) = None"
    by (simp_all add: levels_step)
  show ?thesis
    using assms(1)
    by (subst startParent.simps)
       (simp add: createSharedContext_def startParent_Some[OF up] here chain_step)
qed

lemma started_armed:
  assumes "p \<noteq> dirname p" and "\<forall>a\<in>set (levels p). fswatch (dirname a) = None"
  shows "fdw_step (StartProbed is_directory fswatch) (new_FolderDeletionWatcher p) = armed p"
  by (simp add: new_FolderDeletionWatcher_def start_def is_directory_def probe_answer_def
      isDirectory_FDW_def then_promise_def catch_promise_def start_resume_def METHOD_def
      startParent_None[OF assms] armed_def)

lemma notify_unsubscribed: "watchers w = [] \<Longrightarrow> notify n w = w"
  by (simp add: notify_def)

lemma early_notifications:
  "fdw_run (map Notify ns) (new_FolderDeletionWatcher p) = new_FolderDeletionWatcher p"
proof (induction ns)
  case Nil
  show ?case by (simp add: fdw_run_def)
next
  case (Cons n ns)
  have "watchers (new_FolderDeletionWatcher p) = []"
    by (simp add: new_FolderDeletionWatcher_def start_def)
  then have "notify n (new_FolderDeletionWatcher p) = new_FolderDeletionWatcher p"
    by (rule notify_unsubscribed)
  with Cons show ?case by (simp add: fdw_run_def)
qed

lemma fdw_run_append: "fdw_run (es @ fs) w = fdw_run fs (fdw_run es w)"
  by (simp add: fdw_run_def)

lemma cleanup_chain:
  "map (cleanup_watcher 0) (chain 0 (Some 0) p) = map (\<lambda>fw. fw\<lparr>closed := True\<rparr>) (chain 0 (Some 0) p)"
  by (simp add: chain_def cleanup_watcher_def)

lemma resolve_armed: "resolve 0 (armed p) = spent p"
  by (simp add: resolve_def armed_def spent_def stop_def abort_def callback_def cleanup_chain)

lemma deliver_armed:
  "deliver n i (armed p) =
     (if i < length (levels p) \<and> n = removal (levels p ! i) then spent p else armed p)"
proof (cases "i < length (levels p)")
  case True
  have w: "watchers (armed p) ! i =
             \<lparr>parentPath = dirname (levels p ! i), filename = basename (levels p ! i),
              sharedContext = 0, signal = Some 0, closed = False\<rparr>"
    using True by (simp add: armed_def chain_def)
  have len: "length (watchers (armed p)) = length (levels p)"
    by (simp add: armed_def length_chain)
  show ?thesis
    using True by (auto simp: deliver_def w len removal_def resolve_armed)
next
  case False
  then show ?thesis by (simp add: deliver_def armed_def length_chain)
qed

lemma deliver_spent: "deliver n i (spent p) = spent p"
  by (auto simp: deliver_def spent_def chain_def)

lemma fold_deliver_spent: "fold (deliver n) is (spent p) = spent p"
  by (induction "is") (simp_all add: deliver_spent)

lemma fold_deliver_armed:
  "fold (deliver n) is (armed p) =
     (if \<exists>i\<in>set is. i < length (levels p) \<and> n = removal (levels p ! i)
      then spent p else armed p)"
  by (induction "is") (auto simp: deliver_armed fold_deliver_spent)

lemma gone_iff: "gone p n \<longleftrightarrow> (\<exists>i<length (levels p). n = removal (levels p ! i))"
proof
  assume "gone p n"
  then obtain a where "a \<in> set (levels p)" and n: "n = removal a"
    by (auto simp: gone_def list_ex_iff)
  then obtain i where "i < length (levels p)" and "levels p ! i = a"
    by (auto simp: in_set_conv_nth)
  with n show "\<exists>i<length (levels p). n = removal (levels p ! i)" by blast
next
  assume "\<exists>i<length (levels p). n = removal (levels p ! i)"
  then obtain i where i: "i < length (levels p)" and n: "n = removal (levels p ! i)" by blast
  from i have "levels p ! i \<in> set (levels p)" by simp
  with n show "gone p n" unfolding gone_def list_ex_iff by blast
qed

lemma notify_armed: "notify n (armed p) = (if gone p n then spent p else armed p)"
proof -
  have "length (watchers (armed p)) = length (levels p)"
    by (simp add: armed_def length_chain)
  then have "notify n (armed p) = fold (deliver n) [0..<length (levels p)] (armed p)"
    by (simp add: notify_def)
  then show ?thesis by (auto simp: fold_deliver_armed gone_iff)
qed

lemma notify_spent: "notify n (spent p) = spent p"
  by (simp add: notify_def fold_deliver_spent)

lemma run_notify_spent: "fdw_run (map Notify ns) (spent p) = spent p"
  by (induction ns) (simp_all add: fdw_run_def notify_spent)

lemma run_notify_armed:
  "fdw_run (map Notify ns) (armed p) = (if \<exists>n\<in>set ns. gone p n then spent p else armed p)"
proof (induction ns)
  case Nil
  show ?case by (simp add: fdw_run_def)
next
  case (Cons n ns)
  have "fdw_run (map Notify (n # ns)) (armed p) = fdw_run (map Notify ns) (notify n (armed p))"
    by (simp add: fdw_run_def)
  then show ?case using Cons by (simp add: notify_armed run_notify_spent)
qed

lemma levels_backup: "levels backup_path = [''/Volumes'', ''/Volumes/Backup'']"
  by code_simp


text \<open>
  C1, as stated, fails on the code. The path is a directory when the watcher is
  created, and it is removed while \<open>start()\<close> still waits for its probe: no
  subscription exists yet, nobody hears of the removal, and the callback never runs,
  whether the probe had seen the directory (first run) or not (second run, where the
  watcher stops itself and a later removal is not heard either).
\<close>

theorem removal_while_starting_is_lost:
  "fired (fdw_run [Notify (removal backup_path), StartProbed is_directory watch_succeeds]
            (new_FolderDeletionWatcher backup_path)) = 0
   \<and> fired (fdw_run [Notify (removal backup_path), StartProbed not_found watch_succeeds,
                     Notify (removal backup_path)]
            (new_FolderDeletionWatcher backup_path)) = 0"
  by code_simp

text \<open>
  C1, amended. A watcher is created on \<open>p\<close>, its start-up probe finds a directory
  and every \<open>FS.watch\<close> of its chain succeeds. Whatever was reported before
  \<open>start()\<close> resumed (\<open>early\<close>) and whatever is reported before and after, once the
  removal of a level of \<open>p\<close> (\<open>p\<close> itself or a directory above it, \<open>a\<close>) has been
  reported to the chain the callback has run exactly once, and it has still run exactly
  once at the end.
\<close>

theorem reported_removal_fires_once:
  assumes "a \<in> set (levels p)"
      and "\<forall>d\<in>set (levels p). fswatch (dirname d) = None"
  shows "fired (fdw_run (map Notify early @ StartProbed is_directory fswatch
                          # map Notify (before @ [removal a]))
                  (new_FolderDeletionWatcher p)) = 1
         \<and> fired (fdw_run (map Notify early @ StartProbed is_directory fswatch
                          # map Notify (before @ [removal a] @ after))
                  (new_FolderDeletionWatcher p)) = 1"
proof -
  from assms(1) have p: "p \<noteq> dirname p" using levels_top[of p] by auto
  have g: "gone p (removal a)" using assms(1) by (auto simp: gone_def list_ex_iff)
  have run: "fdw_run (map Notify early @ StartProbed is_directory fswatch # map Notify ns)
               (new_FolderDeletionWatcher p)
        = fdw_run (map Notify ns) (armed p)" for ns
  proof -
    have "fdw_run (map Notify early @ StartProbed is_directory fswatch # map Notify ns)
               (new_FolderDeletionWatcher p)
          = fdw_run (StartProbed is_directory fswatch # map Notify ns) (new_FolderDeletionWatcher p)"
      by (simp only: fdw_run_append early_notifications)
    also have "\<dots> = fdw_run (map Notify ns) (armed p)"
      using started_armed[OF p assms(2)] by (simp add: fdw_run_def)
    finally show ?thesis .
  qed
  have "fdw_run (map Notify (before @ [removal a] @ rest)) (armed p) = spent p" for rest
    using g by (subst run_notify_armed) auto
  then have "fired (fdw_run (map Notify early @ StartProbed is_directory fswatch
                          # map Notify (before @ [removal a] @ rest))
                  (new_FolderDeletionWatcher p)) = 1" for rest
    by (simp only: run) (simp add: spent_def)
  from this[of "[]"] this[of after] show ?thesis
    by simp
qed

theorem reported_removal_fires_once_witness:
  "''/Volumes'' \<in> set (levels backup_path)
   \<and> fired (fdw_run (map Notify [removal ''/Volumes''] @ StartProbed is_directory watch_succeeds
              # map Notify ([removal ''/tmp''] @ [removal ''/Volumes'']))
             (new_FolderDeletionWatcher backup_path)) = 1
   \<and> fired (fdw_run (map Notify [removal ''/Volumes''] @ StartProbed is_directory watch_succeeds
              # map Notify ([removal ''/tmp''] @ [removal ''/Volumes'']
                            @ [removal backup_path, removal backup_path]))
             (new_FolderDeletionWatcher backup_path)) = 1"
proof -
  have h1: "''/Volumes'' \<in> set (levels backup_path)" by (simp add: levels_backup)
  have h2: "\<forall>d\<in>set (levels backup_path). watch_succeeds (dirname d) = None"
    by (simp add: watch_succeeds_def)
  from reported_removal_fires_once [OF h1 h2] h1 show ?thesis by blast
qed

text \<open>Without a reported removal the callback has not run.\<close>

lemma no_removal_no_callback:
  assumes "p \<noteq> dirname p" and "\<forall>a\<in>set (levels p). fswatch (dirname a) = None"
      and "\<forall>n\<in>set ns. \<not> gone p n"
  shows "fired (fdw_run (StartProbed is_directory fswatch # map Notify ns)
                  (new_FolderDeletionWatcher p)) = 0"
proof -
  have "fdw_run (StartProbed is_directory fswatch # map Notify ns) (new_FolderDeletionWatcher p)
        = fdw_run (map Notify ns) (armed p)"
    using started_armed[OF assms(1,2)] by (simp add: fdw_run_def)
  also have "\<dots> = armed p"
    using assms(3) by (simp add: run_notify_armed)
  finally show ?thesis by (simp add: armed_def)
qed

text \<open>
  Where \<open>FS.watch\<close> throws, \<open>start()\<close> is rejected and the chain stays as far as it
  got: here the root directory is watched for \<open>Volumes\<close>, and \<open>/Volumes\<close> is not
  watched for \<open>Backup\<close>.
\<close>

lemma failed_watch_leaves_partial_chain:
  "watchers (fdw_run [StartProbed is_directory watch_root_only]
               (new_FolderDeletionWatcher backup_path))
     = [\<lparr>parentPath = ''/'', filename = ''Volumes'', sharedContext = 0,
         signal = Some 0, closed = False\<rparr>]
   \<and> rejections (fdw_run [StartProbed is_directory watch_root_only]
               (new_FolderDeletionWatcher backup_path))
     = [ErrnoException ''ENOENT'']"
  by code_simp

lemma stop_idempotent: "stop (stop w) = stop w"
  by (cases "abortController w") (simp_all add: stop_def)

lemma stop_armed_silent: "fired (fdw_run (map Notify ns) (stop (armed p))) = 0"
proof -
  have s: "stop (armed p) = (spent p)\<lparr>resolved := [False], fired := 0\<rparr>"
    by (simp add: stop_def abort_def armed_def spent_def cleanup_chain)
  have d: "deliver n i ((spent p)\<lparr>resolved := [False], fired := 0\<rparr>)
             = (spent p)\<lparr>resolved := [False], fired := 0\<rparr>" for n i
    by (auto simp: deliver_def spent_def chain_def)
  have f: "fold (deliver n) is ((spent p)\<lparr>resolved := [False], fired := 0\<rparr>)
             = (spent p)\<lparr>resolved := [False], fired := 0\<rparr>" for n "is"
    by (induction "is") (simp_all add: d)
  have "fdw_run (map Notify ns) ((spent p)\<lparr>resolved := [False], fired := 0\<rparr>)
          = (spent p)\<lparr>resolved := [False], fired := 0\<rparr>"
    by (induction ns) (simp_all add: fdw_run_def notify_def f)
  then show ?thesis by (simp add: s spent_def)
qed

text \<open>
  C2 fails on the code. \<open>stop()\<close> is called while \<open>start()\<close> is still waiting for its
  probe; the probe then finds a directory, \<open>_startParent\<close> runs with
  \<open>_abortController\<close> undefined, and the removal of the path runs the callback although
  \<open>stop()\<close> had returned.
\<close>

theorem stop_while_starting_still_fires:
  "fired (fdw_run [CallStop, StartProbed is_directory watch_succeeds, Notify (removal backup_path)]
            (new_FolderDeletionWatcher backup_path)) = 1"
  by code_simp

text \<open>
  C3 fails on the code: the timer callback of \<open>_startInterval\<close> tests
  \<open>isDirectory( path )\<close> where it means its negation. A probe that finds the directory
  still there stops the watcher and runs the callback; probes that find it gone do
  nothing.
\<close>

theorem polling_fires_while_directory_exists:
  "fired (fdw_run [Tick 0, IntervalProbed is_directory]
            (startInterval (new_FolderDeletionWatcher backup_path))) = 1
   \<and> abortController (fdw_run [Tick 0, IntervalProbed is_directory]
            (startInterval (new_FolderDeletionWatcher backup_path))) = None
   \<and> fired (fdw_run [Tick 0, IntervalProbed not_found, Tick 0, IntervalProbed not_found]
            (startInterval (new_FolderDeletionWatcher backup_path))) = 0"
  by (simp add: fdw_run_def new_FolderDeletionWatcher_def start_def stop_def abort_def
      startInterval_def interval_tick_def interval_resume_def callback_def
      is_directory_def not_found_def probe_answer_def isDirectory_FDW_def
      then_promise_def catch_promise_def cleanup_interval_def)

section \<open>The emitter\<close>

lemma and_then_None [simp]: "and_then (None, m) f = f m"
  by (simp add: and_then_def)

lemma and_then_Some [simp]: "and_then (Some e, m) f = (Some e, m)"
  by (simp add: and_then_def)

lemma and_then_NoneD:
  "and_then r f = (None, m') \<Longrightarrow> \<exists>m1. r = (None, m1) \<and> f m1 = (None, m')"
  by (cases r; cases "fst r") (auto simp: and_then_def)

lemma run_console: "list_all (\<lambda>l. l = ConsoleLog) ls \<Longrightarrow> run_listeners ls arg m = (None, m)"
  by (induction ls) simp_all

lemma emit_detached:
  "detached m \<Longrightarrow> emit name arg m = (None, m\<lparr>emitted := emitted m @ [Emit name arg]\<rparr>)"
  unfolding emit_def detached_def
  by (rule run_console) (simp add: list_all_iff)

lemma detached_emitted [simp]: "detached (m\<lparr>emitted := x\<rparr>) = detached m"
  by (simp add: detached_def)

text \<open>
  The listeners leave the record of emissions, the timer and the calls of
  \<open>intervalFunction\<close> alone.
\<close>

lemma snd_and_then:
  "(\<And>m. F (snd (f m)) = F m) \<Longrightarrow> F (snd (and_then r f)) = F (snd r)"
  by (cases r; cases "fst r") (simp_all add: and_then_def)

lemma onMount_frame:
  "emitted (onMount ev m) = emitted m" "passes (onMount ev m) = passes m"
  "intervalVar (onMount ev m) = intervalVar m"
  by (simp_all add: onMount_def Let_def)

lemma onUnmount_frame:
  "emitted (snd (onUnmount ev m)) = emitted m" "passes (snd (onUnmount ev m)) = passes m"
  "intervalVar (snd (onUnmount ev m)) = intervalVar m"
  by (simp_all add: onUnmount_def Let_def split: option.splits)

lemma call_listener_frame:
  "emitted (snd (call_listener l arg m)) = emitted m"
  "passes (snd (call_listener l arg m)) = passes m"
  "intervalVar (snd (call_listener l arg m)) = intervalVar m"
  by (cases l; cases arg; simp add: onMount_frame onUnmount_frame)+

lemma run_listeners_frame:
  "emitted (snd (run_listeners ls arg m)) = emitted m"
  "passes (snd (run_listeners ls arg m)) = passes m"
  "intervalVar (snd (run_listeners ls arg m)) = intervalVar m"
proof (induction ls arbitrary: m)
  case Nil
  {
    case 1 show ?case by simp
  next
    case 2 show ?case by simp
  next
    case 3 show ?case by simp
  }
next
  case (Cons l ls)
  {
    case 1
    show ?case
      using snd_and_then[of emitted "run_listeners ls arg", OF Cons.IH(1)]
      by (simp add: call_listener_frame)
  next
    case 2
    show ?case
      using snd_and_then[of passes "run_listeners ls arg", OF Cons.IH(2)]
      by (simp add: call_listener_frame)
  next
    case 3
    show ?case
      using snd_and_then[of intervalVar "run_listeners ls arg", OF Cons.IH(3)]
      by (simp add: call_listener_frame)
  }
qed

lemma emit_frame:
  "emitted (snd (emit name arg m)) = emitted m @ [Emit name arg]"
  "passes (snd (emit name arg m)) = passes m"
  "intervalVar (snd (emit name arg m)) = intervalVar m"
  by (simp_all add: emit_def run_listeners_frame)

lemma emit_events_emitted:
  "emit_events evs m = (None, m') \<Longrightarrow> emitted m' = emitted m @ emissions_of evs"
proof (induction evs arbitrary: m)
  case Nil
  then show ?case by (simp add: emissions_of_def)
next
  case (Cons ev evs)
  from Cons.prems obtain m1 m2 where
    e1: "emit (event_type ev) (Some ev) m = (None, m1)" and
    e2: "emit ''all'' (Some ev) m1 = (None, m2)" and
    e3: "emit_events evs m2 = (None, m')"
    by (auto dest!: and_then_NoneD)
  from emit_frame(1)[of "event_type ev" "Some ev" m] e1
  have f1: "emitted m1 = emitted m @ [Emit (event_type ev) (Some ev)]" by simp
  from emit_frame(1)[of "''all''" "Some ev" m1] e2
  have f2: "emitted m2 = emitted m1 @ [Emit ''all'' (Some ev)]" by simp
  from Cons.IH[OF e3] f1 f2 show ?case by (simp add: emissions_of_def)
qed

lemma deletion_callback_frame:
  "passes (snd (deletion_callback p m)) = passes m"
  "intervalVar (snd (deletion_callback p m)) = intervalVar m"
proof -
  have a: "passes (snd (and_then (emit n1 a1 m) (\<lambda>m1. and_then (emit n2 a2 m1) (emit n3 a3))))
             = passes m" for n1 a1 n2 a2 n3 a3
  proof -
    have inner: "passes (snd (and_then (emit n2 a2 m1) (emit n3 a3))) = passes m1" for m1
      using snd_and_then[of passes "emit n3 a3" "emit n2 a2 m1"] by (simp add: emit_frame)
    show ?thesis
      using snd_and_then[of passes "\<lambda>m1. and_then (emit n2 a2 m1) (emit n3 a3)" "emit n1 a1 m"]
      by (simp add: inner emit_frame)
  qed
  have b: "intervalVar (snd (and_then (emit n1 a1 m) (\<lambda>m1. and_then (emit n2 a2 m1) (emit n3 a3))))
             = intervalVar m" for n1 a1 n2 a2 n3 a3
  proof -
    have inner: "intervalVar (snd (and_then (emit n2 a2 m1) (emit n3 a3))) = intervalVar m1" for m1
      using snd_and_then[of intervalVar "emit n3 a3" "emit n2 a2 m1"] by (simp add: emit_frame)
    show ?thesis
      using snd_and_then[of intervalVar "\<lambda>m1. and_then (emit n2 a2 m1) (emit n3 a3)" "emit n1 a1 m"]
      by (simp add: inner emit_frame)
  qed
  show "passes (snd (deletion_callback p m)) = passes m"
    by (cases "map_of (filesystemMap m) p") (simp_all add: deletion_callback_def a)
  show "intervalVar (snd (deletion_callback p m)) = intervalVar m"
    by (cases "map_of (filesystemMap m) p") (simp_all add: deletion_callback_def b)
qed

section \<open>Changed and RefreshCompleted\<close>

text \<open>
  C7, as stated, fails on the code: a pass that produces no event still emits
  \<open>changed\<close>. Here the enumeration is empty and nothing was known before.
\<close>

theorem changed_without_events:
  "pass_events darwin (seen []) (newState darwin [] []) module_loaded = Inr []
   \<and> intervalFunction darwin (seen []) module_loaded
       = (None, module_loaded\<lparr>emitted := [Emit ''changed'' None, Emit ''refresh'' None]\<rparr>)"
  by code_simp

text \<open>
  C7, amended: a pass that runs to its end has emitted, after the emissions of the
  events it produced (none, if it produced none), \<open>changed\<close> and then \<open>refresh\<close>.
\<close>

theorem changed_and_refresh_end_every_pass:
  assumes "intervalFunction h env m = (None, m')"
  shows "\<exists>devices filesystems events.
           enumeration env = Inr (devices, filesystems)
           \<and> pass_events h env (newState h devices filesystems) m = Inr events
           \<and> emitted m' = emitted m @ emissions_of events
                            @ [Emit ''changed'' None, Emit ''refresh'' None]"
proof -
  from assms obtain devices filesystems where en: "enumeration env = Inr (devices, filesystems)"
    by (cases "enumeration env") (auto simp: intervalFunction_def)
  from assms en obtain events where
    pe: "pass_events h env (newState h devices filesystems) m = Inr events"
    by (cases "pass_events h env (newState h devices filesystems) m")
       (auto simp: intervalFunction_def)
  from assms en pe obtain m1 m2 where
    e1: "emit_events events m = (None, m1)" and
    e2: "emit ''changed'' None m1 = (None, m2)" and
    e3: "emit ''refresh'' None m2 = (None, m')"
    by (auto simp: intervalFunction_def dest!: and_then_NoneD)
  from emit_frame(1)[of "''changed''" None m1] e2
  have f2: "emitted m2 = emitted m1 @ [Emit ''changed'' None]" by simp
  from emit_frame(1)[of "''refresh''" None m2] e3
  have f3: "emitted m' = emitted m2 @ [Emit ''refresh'' None]" by simp
  from emit_events_emitted[OF e1] f2 f3 en pe show ?thesis by simp
qed

theorem changed_and_refresh_end_every_pass_witness:
  "intervalFunction darwin (seen [backup]) module_loaded
     = (None, snd (intervalFunction darwin (seen [backup]) module_loaded))
   \<and> (\<exists>devices filesystems events.
           enumeration (seen [backup]) = Inr (devices, filesystems)
           \<and> pass_events darwin (seen [backup]) (newState darwin devices filesystems) module_loaded
               = Inr events
           \<and> emitted (snd (intervalFunction darwin (seen [backup]) module_loaded))
               = emitted module_loaded @ emissions_of events
                   @ [Emit ''changed'' None, Emit ''refresh'' None])"
proof -
  have h: "intervalFunction darwin (seen [backup]) module_loaded
             = (None, snd (intervalFunction darwin (seen [backup]) module_loaded))"
    by code_simp
  from changed_and_refresh_end_every_pass [OF h] h show ?thesis by blast
qed

section \<open>Passes in flight\<close>

text \<open>
  The listeners and the emitter take no notice of the calls of \<open>intervalFunction\<close>
  in flight: with another value of \<open>passes\<close> they do the same.
\<close>

lemma and_then_passes:
  assumes "\<And>m. f (m\<lparr>passes := x\<rparr>) = apsnd (passes_update (\<lambda>_. x)) (f m)"
  shows "and_then (apsnd (passes_update (\<lambda>_. x)) r) f
           = apsnd (passes_update (\<lambda>_. x)) (and_then r f)"
  by (cases r; cases "fst r") (simp_all add: and_then_def assms)

lemma onUnmount_passes:
  "onUnmount ev (m\<lparr>passes := x\<rparr>) = apsnd (passes_update (\<lambda>_. x)) (onUnmount ev m)"
  by (simp add: onUnmount_def Let_def split: option.splits)

lemma call_listener_passes:
  "call_listener l arg (m\<lparr>passes := x\<rparr>) = apsnd (passes_update (\<lambda>_. x)) (call_listener l arg m)"
  by (cases l; cases arg) (simp_all add: onMount_def Let_def onUnmount_passes)

lemma run_listeners_passes:
  "run_listeners ls arg (m\<lparr>passes := x\<rparr>) = apsnd (passes_update (\<lambda>_. x)) (run_listeners ls arg m)"
proof (induction ls arbitrary: m)
  case Nil
  show ?case by simp
next
  case (Cons l ls)
  show ?case
    using and_then_passes[of "run_listeners ls arg" x "call_listener l arg m", OF Cons.IH]
    by (simp add: call_listener_passes)
qed

lemma emit_passes:
  "emit name arg (m\<lparr>passes := x\<rparr>) = apsnd (passes_update (\<lambda>_. x)) (emit name arg m)"
proof -
  let ?ls = "map snd (filter (\<lambda>l. fst l = name) (listeners m))"
  let ?m = "m\<lparr>emitted := emitted m @ [Emit name arg]\<rparr>"
  have swap: "m\<lparr>passes := x, emitted := emitted m @ [Emit name arg]\<rparr> = ?m\<lparr>passes := x\<rparr>"
    by (rule MountMonitor.equality) simp_all
  have "emit name arg (m\<lparr>passes := x\<rparr>) = run_listeners ?ls arg (?m\<lparr>passes := x\<rparr>)"
    by (simp add: emit_def swap)
  also have "\<dots> = apsnd (passes_update (\<lambda>_. x)) (run_listeners ?ls arg ?m)"
    by (rule run_listeners_passes)
  also have "\<dots> = apsnd (passes_update (\<lambda>_. x)) (emit name arg m)"
    by (simp add: emit_def)
  finally show ?thesis .
qed

lemma emit_events_passes:
  "emit_events evs (m\<lparr>passes := x\<rparr>) = apsnd (passes_update (\<lambda>_. x)) (emit_events evs m)"
proof (induction evs arbitrary: m)
  case Nil
  show ?case by simp
next
  case (Cons ev evs)
  have inner: "and_then (emit ''all'' (Some ev) (m1\<lparr>passes := x\<rparr>)) (emit_events evs)
                 = apsnd (passes_update (\<lambda>_. x))
                     (and_then (emit ''all'' (Some ev) m1) (emit_events evs))" for m1
    using and_then_passes[of "emit_events evs" x "emit ''all'' (Some ev) m1", OF Cons.IH]
    by (simp add: emit_passes)
  show ?case
    using and_then_passes[of "\<lambda>m1. and_then (emit ''all'' (Some ev) m1) (emit_events evs)" x
                             "emit (event_type ev) (Some ev) m", OF inner]
    by (simp add: emit_passes)
qed

text \<open>
  A call of \<open>intervalFunction\<close> whose two answers come one right after the other does
  what \<open>intervalFunction\<close> does in one piece.
\<close>

lemma uninterrupted_pass:
  assumes "k < length (passes m)" and "passes m ! k = Enumerating"
  shows "monitor_run h (uninterrupted k env) m
           = (snd (intervalFunction h env m))\<lparr>passes := (passes m)[k := Settled]\<rparr>"
proof (cases "enumeration env")
  case (Inl e)
  then show ?thesis
    using assms
    by (simp add: monitor_run_def uninterrupted_def enumerated_def probed_def
        intervalFunction_def)
next
  case (Inr df)
  obtain devices filesystems where df: "df = (devices, filesystems)" by force
  let ?ns = "newState h devices filesystems"
  let ?cs = "map (\<lambda>fs. (fs, map_of (filesystemMap m) (path0 fs))) ?ns"
  let ?m1 = "m\<lparr>passes := (passes m)[k := Probing ?cs]\<rparr>"
  let ?x = "(passes m)[k := Settled]"
  have en: "enumerated h k (enumeration env) m = ?m1"
    using assms Inr df by (simp add: enumerated_def)
  have ord: "\<forall>i\<in>set (completion_order (latency env) (length ?ns)). i < length ?ns"
    by (simp add: completion_order_def)
  have cs: "map (\<lambda>i. ?cs ! i) (completion_order (latency env) (length ?cs))
              = map (\<lambda>i. (?ns ! i, map_of (filesystemMap m) (path0 (?ns ! i))))
                    (completion_order (latency env) (length ?ns))"
    using ord by simp
  have me: "resume_probes (lstat_of env)
              (map (\<lambda>i. ?cs ! i) (completion_order (latency env) (length ?cs)))
            = mount_events env ?ns m"
    by (simp only: cs mount_events_def)
  have settled: "?m1\<lparr>passes := (passes ?m1)[k := Settled]\<rparr> = m\<lparr>passes := ?x\<rparr>"
    by simp
  have st: "state h (m\<lparr>passes := ?x\<rparr>) = state h m" by (simp add: state_def)
  show ?thesis
  proof (cases "mount_events env ?ns m")
    case (Inl e)
    then have "probed h k (lstat_of env) (latency env) ?m1 = m\<lparr>passes := ?x\<rparr>"
      using assms(1) by (simp add: probed_def Let_def me del: length_map)
    moreover have "intervalFunction h env m = (Some e, m)"
      using \<open>enumeration env = Inr df\<close> df Inl by (simp add: intervalFunction_def pass_events_def)
    ultimately show ?thesis
      by (simp add: monitor_run_def uninterrupted_def en)
  next
    case (Inr mounts)
    let ?evs = "mounts @ old_events (uuidFilesystemMap ?ns) (state h m)"
    let ?tail = "\<lambda>m0. and_then (emit_events ?evs m0)
                         (\<lambda>m1. and_then (emit ''changed'' None m1) (emit ''refresh'' None))"
    have inner: "and_then (emit ''changed'' None (m1\<lparr>passes := ?x\<rparr>)) (emit ''refresh'' None)
                   = apsnd (passes_update (\<lambda>_. ?x))
                       (and_then (emit ''changed'' None m1) (emit ''refresh'' None))" for m1
      using and_then_passes[of "emit ''refresh'' None" ?x "emit ''changed'' None m1"]
      by (simp add: emit_passes)
    have tail: "?tail (m\<lparr>passes := ?x\<rparr>) = apsnd (passes_update (\<lambda>_. ?x)) (?tail m)"
      using and_then_passes[of "\<lambda>m1. and_then (emit ''changed'' None m1) (emit ''refresh'' None)"
                               ?x "emit_events ?evs m", OF inner]
      by (simp add: emit_events_passes)
    have "probed h k (lstat_of env) (latency env) ?m1 = snd (?tail (m\<lparr>passes := ?x\<rparr>))"
      using assms(1) Inr
      by (simp add: probed_def Let_def me st o_def del: length_map)
    moreover have "intervalFunction h env m = ?tail m"
      using \<open>enumeration env = Inr df\<close> df Inr by (simp add: intervalFunction_def pass_events_def)
    ultimately show ?thesis
      by (simp add: monitor_run_def uninterrupted_def en tail)
  qed
qed

text \<open>A tick, or a watcher's callback, leaves every call in flight where it stands.\<close>

lemma quiet_step:
  assumes "intervalVar m \<noteq> None" and "quiet e"
  shows "intervalVar (monitor_step h e m) \<noteq> None"
    and "passes (monitor_step h e m) = passes m @ replicate (ticks [e]) Enumerating"
  using assms
  by (cases e; simp add: begin_pass_def deletion_callback_frame ticks_def)+

lemma in_flight_append:
  "in_flight (m\<lparr>passes := passes m @ replicate n Enumerating\<rparr>) = in_flight m + n"
  by (simp add: in_flight_def)

text \<open>
  C8, as stated, fails on the code: the module has started its first pass; the timer
  ticks before the enumeration of that pass has answered, and two passes are in
  flight. Both read the maps before either writes them: the same volume is announced
  as mounted twice.
\<close>

theorem tick_during_pass_overlaps:
  "in_flight module_loaded = 1
   \<and> in_flight (monitor_run darwin [TimerTick] module_loaded) = 2
   \<and> map emission_name (emitted (monitor_run darwin overlapping module_loaded))
       = [''mount'', ''all'', ''changed'', ''refresh'',
          ''mount'', ''all'', ''changed'', ''refresh'']"
  by code_simp

text \<open>
  C8, amended: while the timer is armed, every tick starts a pass, whatever passes are
  still in flight. Over any stretch of ticks and watcher callbacks, in which no pass
  gets an answer, the passes in flight stay as they are and each tick adds one.
\<close>

theorem ticks_start_passes_over_outstanding_ones:
  assumes "intervalVar m \<noteq> None" and "list_all quiet es"
  shows "passes (monitor_run h es m) = passes m @ replicate (ticks es) Enumerating
         \<and> in_flight (monitor_run h es m) = in_flight m + ticks es"
proof -
  have run: "intervalVar (monitor_run h es m) \<noteq> None
             \<and> passes (monitor_run h es m) = passes m @ replicate (ticks es) Enumerating"
    using assms
  proof (induction es arbitrary: m)
    case Nil
    then show ?case by (simp add: monitor_run_def ticks_def)
  next
    case (Cons e es)
    from Cons.prems have q: "quiet e" and qs: "list_all quiet es" by simp_all
    note step = quiet_step[OF Cons.prems(1) q, of h]
    from Cons.IH[OF step(1) qs] step(2)
    have "intervalVar (monitor_run h es (monitor_step h e m)) \<noteq> None"
      and "passes (monitor_run h es (monitor_step h e m))
             = passes m @ replicate (ticks [e]) Enumerating @ replicate (ticks es) Enumerating"
      by simp_all
    moreover have "ticks (e # es) = ticks [e] + ticks es" by (simp add: ticks_def)
    ultimately show ?case
      by (simp add: monitor_run_def replicate_add)
  qed
  then have "in_flight (monitor_run h es m) = in_flight m + ticks es"
    by (simp add: in_flight_def)
  with run show ?thesis by simp
qed

theorem ticks_start_passes_over_outstanding_ones_witness:
  "intervalVar first_pass_probing \<noteq> None
   \<and> list_all quiet [TimerTick, WatcherCallback ''/Volumes/Backup'', TimerTick]
   \<and> in_flight first_pass_probing = 1
   \<and> passes (monitor_run darwin [TimerTick, WatcherCallback ''/Volumes/Backup'', TimerTick]
               first_pass_probing)
       = passes first_pass_probing @ [Enumerating, Enumerating]
   \<and> in_flight (monitor_run darwin [TimerTick, WatcherCallback ''/Volumes/Backup'', TimerTick]
                  first_pass_probing) = 3"
proof -
  have h1: "intervalVar first_pass_probing \<noteq> None" by code_simp
  have h2: "list_all quiet [TimerTick, WatcherCallback ''/Volumes/Backup'', TimerTick]" by simp
  have h3: "in_flight first_pass_probing = 1" by code_simp
  have h4: "ticks [TimerTick, WatcherCallback ''/Volumes/Backup'', TimerTick] = 2"
    by (simp add: ticks_def)
  from ticks_start_passes_over_outstanding_ones [OF h1 h2, of darwin] h1 h2 h3 h4
  show ?thesis by (simp add: numeral_2_eq_2)
qed

text \<open>A pass leaves the passes in flight when its probes have answered, not before.\<close>

lemma probed_settles:
  assumes "k < length (passes m)" and "passes m ! k = Probing cs"
  shows "passes (probed h k lst lat m) = (passes m)[k := Settled]"
proof -
  let ?m0 = "m\<lparr>passes := (passes m)[k := Settled]\<rparr>"
  have tail: "passes (snd (and_then (emit_events evs ?m0)
                 (\<lambda>m1. and_then (emit ''changed'' None m1) (emit ''refresh'' None))))
              = (passes m)[k := Settled]" for evs
  proof -
    have ee: "passes (snd (emit_events evs ?m0)) = (passes m)[k := Settled]"
      using emit_events_passes[where evs = evs and m = m and x = "(passes m)[k := Settled]"]
      by (cases "emit_events evs m") simp
    have inner: "passes (snd (and_then (emit ''changed'' None m1) (emit ''refresh'' None)))
                   = passes m1" for m1
      using snd_and_then[of passes "emit ''refresh'' None" "emit ''changed'' None m1"]
      by (simp add: emit_frame)
    show ?thesis
      using snd_and_then[of passes "\<lambda>m1. and_then (emit ''changed'' None m1) (emit ''refresh'' None)"
                            "emit_events evs ?m0"]
      by (simp add: inner ee)
  qed
  show ?thesis
    using assms by (simp add: probed_def Let_def tail split: sum.splits)
qed

text \<open>
  In any stretch without calls of \<open>start()\<close> and \<open>stop()\<close>, whatever answers arrive
  in it, the timer stays armed and as many passes are started as there are ticks.
\<close>

lemma emit_events_timer: "intervalVar (snd (emit_events evs m)) = intervalVar m"
proof (induction evs arbitrary: m)
  case Nil
  show ?case by simp
next
  case (Cons ev evs)
  have inner: "intervalVar (snd (and_then (emit ''all'' (Some ev) m1) (emit_events evs)))
                 = intervalVar m1" for m1
    using snd_and_then[of intervalVar "emit_events evs" "emit ''all'' (Some ev) m1", OF Cons.IH]
    by (simp add: emit_frame)
  show ?case
    using snd_and_then[of intervalVar "\<lambda>m1. and_then (emit ''all'' (Some ev) m1) (emit_events evs)"
                          "emit (event_type ev) (Some ev) m", OF inner]
    by (simp add: emit_frame)
qed

lemma enumerated_frame:
  "intervalVar (enumerated h k r m) = intervalVar m"
  "length (passes (enumerated h k r m)) = length (passes m)"
  by (auto simp: enumerated_def split: sum.splits prod.splits)

lemma probed_frame:
  "intervalVar (probed h k lst lat m) = intervalVar m"
  "length (passes (probed h k lst lat m)) = length (passes m)"
proof -
  have tail: "intervalVar (snd (and_then (emit_events evs m0)
                 (\<lambda>m1. and_then (emit ''changed'' None m1) (emit ''refresh'' None))))
              = intervalVar m0" for evs m0
  proof -
    have inner: "intervalVar (snd (and_then (emit ''changed'' None m1) (emit ''refresh'' None)))
                   = intervalVar m1" for m1
      using snd_and_then[of intervalVar "emit ''refresh'' None" "emit ''changed'' None m1"]
      by (simp add: emit_frame)
    show ?thesis
      using snd_and_then[of intervalVar
              "\<lambda>m1. and_then (emit ''changed'' None m1) (emit ''refresh'' None)"
              "emit_events evs m0", OF inner]
      by (simp add: emit_events_timer)
  qed
  show "intervalVar (probed h k lst lat m) = intervalVar m"
    by (simp add: probed_def Let_def tail split: pass.splits sum.splits)
  show "length (passes (probed h k lst lat m)) = length (passes m)"
  proof (cases "k < length (passes m)")
    case False
    then show ?thesis by (simp add: probed_def)
  next
    case True
    show ?thesis
    proof (cases "passes m ! k")
      case Enumerating
      with True show ?thesis by (simp add: probed_def)
    next
      case (Probing cs)
      have "passes (probed h k lst lat m) = (passes m)[k := Settled]"
        by (rule probed_settles[OF True Probing])
      then show ?thesis by (simp only: length_list_update)
    next
      case Settled
      with True show ?thesis by (simp add: probed_def)
    qed
  qed
qed

lemma every_tick_starts_a_pass_in_any_run:
  assumes "intervalVar m \<noteq> None" and "list_all unattended es"
  shows "intervalVar (monitor_run h es m) \<noteq> None
         \<and> length (passes (monitor_run h es m)) = length (passes m) + ticks es"
  using assms
proof (induction es arbitrary: m)
  case Nil
  then show ?case by (simp add: monitor_run_def ticks_def)
next
  case (Cons e es)
  from Cons.prems have u: "unattended e" and us: "list_all unattended es" by simp_all
  have step: "intervalVar (monitor_step h e m) \<noteq> None
              \<and> length (passes (monitor_step h e m)) = length (passes m) + ticks [e]"
    using Cons.prems(1) u
    by (cases e) (simp_all add: begin_pass_def ticks_def enumerated_frame probed_frame
                     deletion_callback_frame)
  from Cons.IH[of "monitor_step h e m"] step us
  have "intervalVar (monitor_run h es (monitor_step h e m)) \<noteq> None"
    and "length (passes (monitor_run h es (monitor_step h e m)))
           = length (passes m) + ticks [e] + ticks es"
    by simp_all
  moreover have "ticks (e # es) = ticks [e] + ticks es" by (simp add: ticks_def)
  ultimately show ?case by (simp add: monitor_run_def)
qed

section \<open>Renames and repeated passes\<close>

text \<open>
  In a started monitor \<open>emit( "rename", ... )\<close> reaches no listener of the module:
  the monitor is left as it was, but for the record of the emission.
\<close>

lemma emit_rename_reaches_no_listener:
  assumes "started m"
  shows "emit ''rename'' arg m = (None, m\<lparr>emitted := emitted m @ [Emit ''rename'' arg]\<rparr>)"
proof -
  have "snd l = ConsoleLog" if l: "l \<in> set (listeners m)" "fst l = ''rename''" for l
  proof (rule ccontr)
    assume "snd l \<noteq> ConsoleLog"
    with l(1) have "l \<in> set (filter (\<lambda>l. snd l \<noteq> ConsoleLog) (listeners m))" by simp
    with assms have "l \<in> {(''mount'', OnMount), (''onRename'', OnMount), (''unmount'', OnUnmount)}"
      by (simp add: started_def)
    with l(2) show False by auto
  qed
  then have "list_all (\<lambda>l. l = ConsoleLog)
               (map snd (filter (\<lambda>l. fst l = ''rename'') (listeners m)))"
    by (auto simp: list_all_iff)
  then show ?thesis
    unfolding emit_def by (rule run_console)
qed

text \<open>
  C4 fails on the code. \<open>backup\<close> is mounted; the next enumeration shows the same
  volume, at the same mount path, with the label \<open>MyBackup\<close>. The pass produces the one
  \<open>rename\<close> event and runs to its end, but \<open>start()\<close> has put its listener under the
  name \<open>onRename\<close>, which nothing emits: the map still holds the old value.
\<close>

theorem rename_leaves_old_value:
  "pass_events darwin (seen [mybackup]) (newState darwin [mybackup] []) backup_mounted
     = Inr [Rename (of_device mybackup) (of_device backup)]
   \<and> fst (intervalFunction darwin (seen [mybackup]) backup_mounted) = None
   \<and> map_of (filesystemMap (snd (intervalFunction darwin (seen [mybackup]) backup_mounted)))
        ''/Volumes/Backup''
       = Some (of_device backup)"
  by code_simp

text \<open>
  C5 fails on the code, by the same defect: a second pass over the same enumeration
  produces the same \<open>rename\<close> event again.
\<close>

theorem second_pass_renames_again:
  "pass_events darwin (seen [mybackup]) (newState darwin [mybackup] [])
     (snd (intervalFunction darwin (seen [mybackup]) backup_mounted))
     = Inr [Rename (of_device mybackup) (of_device backup)]"
  by code_simp

section \<open>The order of the mount events\<close>

text \<open>
  What does hold when nothing is known before and every probe answers: the candidates
  are sorted, each confirmed candidate gets one \<open>mount\<close> event, and the events come
  in the order in which the probes answer; that is the sorted order when the probes
  answer in the order in which they were started.
\<close>

lemma sort_key_const: "sort_key (\<lambda>i. c) xs = xs"
proof (induction xs)
  case Nil
  show ?case by simp
next
  case (Cons x xs)
  then show ?case by (cases xs) simp_all
qed

lemma completion_order_in_turn: "completion_order (\<lambda>i. c) n = [0..<n]"
  by (simp add: completion_order_def sort_key_const)

lemma mset_completion_order: "mset (completion_order lat n) = mset [0..<n]"
  by (simp add: completion_order_def)

lemma resume_probes_answered:
  assumes "list_all (\<lambda>x. isDirectory lst (path0 (fst x)) = Inr True
                        \<or> isDirectory lst (path0 (fst x)) = Inr False) xs"
  shows "resume_probes lst xs =
           Inr (concat (map (\<lambda>x. if isDirectory lst (path0 (fst x)) = Inr True \<and> snd x = None
                                  then [Mount (fst x)] else []) xs))"
  using assms
proof (induction xs)
  case Nil
  show ?case by simp
next
  case (Cons x xs)
  obtain fs old where x: "x = (fs, old)" by force
  from Cons.prems have rest: "resume_probes lst xs =
           Inr (concat (map (\<lambda>x. if isDirectory lst (path0 (fst x)) = Inr True \<and> snd x = None
                                  then [Mount (fst x)] else []) xs))"
    by (intro Cons.IH) simp
  from Cons.prems have "isDirectory lst (path0 fs) = Inr True \<or> isDirectory lst (path0 fs) = Inr False"
    by (simp add: x)
  then show ?case by (auto simp: x rest)
qed

lemma sortFilesystems_key: "sortFilesystems h fss = sort_key (sort_key_of h) fss"
proof (cases "platform h")
  case Darwin
  then have "sort_key_of h = (\<lambda>fs. collation h (toUpperCase h (sort_label fs)))"
    by (intro ext) (simp add: sort_key_of_def)
  with Darwin show ?thesis by (simp add: sortFilesystems_def)
next
  case Linux
  then have "sort_key_of h = (\<lambda>fs. collation h (toUpperCase h (path0 fs)))"
    by (intro ext) (simp add: sort_key_of_def)
  with Linux show ?thesis by (simp add: sortFilesystems_def)
next
  case Win32
  then have "sort_key_of h = (\<lambda>fs. collation h (toUpperCase h (path0 fs)))"
    by (intro ext) (simp add: sort_key_of_def)
  with Win32 show ?thesis by (simp add: sortFilesystems_def)
qed

lemma concat_map_if: "concat (map (\<lambda>x. if P x then [f x] else []) xs) = map f (filter P xs)"
  by (induction xs) simp_all

lemma newState_sorted: "sorted (map (sort_key_of h) (newState h devices filesystems))"
  by (simp add: newState_def sortFilesystems_key)

lemma mount_events_nothing_known:
  assumes "filesystemMap m = []" and "answered env ns"
  shows "mount_events env ns m
           = Inr (map Mount (filter (confirmed env)
                    (map (\<lambda>i. ns ! i) (completion_order (latency env) (length ns)))))"
proof -
  let ?xs = "map (\<lambda>i. (ns ! i, map_of (filesystemMap m) (path0 (ns ! i))))
                 (completion_order (latency env) (length ns))"
  have "set (completion_order (latency env) (length ns)) = {0..<length ns}"
    by (simp add: completion_order_def)
  then have "\<forall>i\<in>set (completion_order (latency env) (length ns)). ns ! i \<in> set ns"
    by simp
  with assms(2) have "list_all (\<lambda>x. isDirectory (lstat_of env) (path0 (fst x)) = Inr True
                        \<or> isDirectory (lstat_of env) (path0 (fst x)) = Inr False) ?xs"
    by (auto simp: answered_def list_all_iff)
  from resume_probes_answered[OF this]
  have "mount_events env ns m
          = Inr (concat (map (\<lambda>i. if confirmed env (ns ! i) then [Mount (ns ! i)] else [])
                   (completion_order (latency env) (length ns))))"
    by (simp add: mount_events_def assms(1) confirmed_def o_def cong: if_cong)
  also have "concat (map (\<lambda>i. if confirmed env (ns ! i) then [Mount (ns ! i)] else [])
                   (completion_order (latency env) (length ns)))
        = map Mount (filter (confirmed env)
                    (map (\<lambda>i. ns ! i) (completion_order (latency env) (length ns))))"
    using concat_map_if[of "confirmed env" Mount "map (\<lambda>i. ns ! i) (completion_order (latency env) (length ns))"]
    by (simp add: o_def)
  finally show ?thesis .
qed

lemma pass_events_nothing_known:
  assumes "filesystemMap m = []" and "answered env ns"
  shows "pass_events h env ns m
           = Inr (map Mount (filter (confirmed env)
                    (map (\<lambda>i. ns ! i) (completion_order (latency env) (length ns)))))"
  by (simp add: pass_events_def mount_events_nothing_known[OF assms] state_def obj_values_def
      assms(1) sortFilesystems_key old_events_def)

text \<open>One \<open>mount\<close> event for each confirmed candidate, whatever the order of the answers.\<close>

lemma one_mount_each:
  assumes "filesystemMap m = []" and "answered env ns"
  shows "\<exists>evs. pass_events h env ns m = Inr evs
           \<and> mset evs = mset (map Mount (filter (confirmed env) ns))"
proof -
  have "mset (map (\<lambda>i. ns ! i) (completion_order (latency env) (length ns)))
          = image_mset (\<lambda>i. ns ! i) (mset [0..<length ns])"
    by (simp add: mset_completion_order)
  also have "\<dots> = mset (map (\<lambda>i. ns ! i) [0..<length ns])" by simp
  also have "\<dots> = mset ns" by (simp add: map_nth)
  finally have "mset (filter (confirmed env) (map (\<lambda>i. ns ! i) (completion_order (latency env) (length ns))))
      = mset (filter (confirmed env) ns)"
    by (simp only: mset_filter)
  then have "mset (map Mount (filter (confirmed env) (map (\<lambda>i. ns ! i) (completion_order (latency env) (length ns)))))
      = mset (map Mount (filter (confirmed env) ns))"
    by (simp only: mset_map)
  with pass_events_nothing_known[OF assms, of h] show ?thesis by blast
qed

lemma in_sort_order_when_answered_in_turn:
  assumes "filesystemMap m = []" and "answered env ns" and "latency env = (\<lambda>i. c)"
  shows "pass_events h env ns m = Inr (map Mount (filter (confirmed env) ns))"
  by (simp add: pass_events_nothing_known[OF assms(1,2)] assms(3) completion_order_in_turn map_nth)


text \<open>
  C6 fails on the code. Nothing is known before; \<open>alpha\<close> sorts before \<open>beta\<close>, both
  mount paths are directories, and the probe of \<open>alpha\<close> answers after the probe of
  \<open>beta\<close>. Each callback pushes its event when its own probe answers: \<open>beta\<close> is
  announced first.
\<close>

theorem mount_events_follow_the_probes:
  "newState darwin [beta, alpha] [] = [of_device alpha, of_device beta]
   \<and> pass_events darwin slow_first (newState darwin [beta, alpha] []) module_loaded
       = Inr [Mount (of_device beta), Mount (of_device alpha)]"
  by code_simp

section \<open>A watcher firing after the monitor has stopped\<close>

lemma filter_removeListener:
  "snd x \<noteq> ConsoleLog \<Longrightarrow>
     filter (\<lambda>l. snd l \<noteq> ConsoleLog) (listeners (removeListener (fst x) (snd x) m))
       = rev (remove1 x (rev (filter (\<lambda>l. snd l \<noteq> ConsoleLog) (listeners m))))"
proof -
  let ?P = "\<lambda>l. snd l \<noteq> ConsoleLog"
  have "filter ?P (rev (remove1 x (rev (listeners m))))
          = rev (filter ?P (remove1 x (rev (listeners m))))"
    by (simp only: rev_filter)
  also have "\<dots> = rev (remove1 x (filter ?P (rev (listeners m))))"
    by (simp only: filter_remove1)
  also have "\<dots> = rev (remove1 x (rev (filter ?P (listeners m))))"
    by (simp only: rev_filter)
  finally show ?thesis by (simp add: removeListener_def)
qed

lemma stop_monitor_detaches:
  assumes "started m"
  shows "detached (stop_monitor m)"
proof -
  let ?P = "\<lambda>l. snd l \<noteq> ConsoleLog"
  let ?m1 = "removeListener ''mount'' OnMount m"
  let ?m2 = "removeListener ''onRename'' OnMount ?m1"
  let ?m3 = "removeListener ''unmount'' OnUnmount ?m2"
  from assms have l0: "filter ?P (listeners m)
      = [(''mount'', OnMount), (''onRename'', OnMount), (''unmount'', OnUnmount)]"
    by (simp add: started_def)
  have l1: "filter ?P (listeners ?m1) = [(''onRename'', OnMount), (''unmount'', OnUnmount)]"
    using filter_removeListener[of "(''mount'', OnMount)" m] by (simp add: l0)
  have l2: "filter ?P (listeners ?m2) = [(''unmount'', OnUnmount)]"
    using filter_removeListener[of "(''onRename'', OnMount)" ?m1] by (simp add: l1)
  have l3: "filter ?P (listeners ?m3) = []"
    using filter_removeListener[of "(''unmount'', OnUnmount)" ?m2] by (simp add: l2)
  have "listeners (stop_monitor m) = listeners ?m3"
    using assms by (simp add: stop_monitor_def started_def)
  with l3 show ?thesis
    by (simp add: detached_def list_all_iff filter_empty_conv)
qed

lemma stop_monitor_maps:
  "filesystemMap (stop_monitor m) = filesystemMap m"
  "deletionWatchers (stop_monitor m) = deletionWatchers m"
  "emitted (stop_monitor m) = emitted m"
  by (simp_all add: stop_monitor_def removeListener_def)

text \<open>
  C10: the monitor is started and knows a volume at the mount path \<open>p\<close>; \<open>stop()\<close> is
  called; then the callback of the watcher of \<open>p\<close> runs. It emits \<open>unmount\<close>, \<open>all\<close>
  and \<open>change\<close>, and nothing else of the monitor changes: both maps are as they were.
\<close>

theorem callback_after_stop_keeps_maps:
  assumes "started m" and "map_of (filesystemMap m) p = Some fs"
  shows "deletion_callback p (stop_monitor m)
           = (None, (stop_monitor m)\<lparr>emitted := emitted m @
                [Emit ''unmount'' (Some (Unmount fs)), Emit ''all'' (Some (Unmount fs)),
                 Emit ''change'' None]\<rparr>)
         \<and> filesystemMap (snd (deletion_callback p (stop_monitor m))) = filesystemMap m
         \<and> deletionWatchers (snd (deletion_callback p (stop_monitor m))) = deletionWatchers m"
proof -
  have d: "detached (stop_monitor m)" by (rule stop_monitor_detaches[OF assms(1)])
  have "deletion_callback p (stop_monitor m)
           = (None, (stop_monitor m)\<lparr>emitted := emitted m @
                [Emit ''unmount'' (Some (Unmount fs)), Emit ''all'' (Some (Unmount fs)),
                 Emit ''change'' None]\<rparr>)"
    using assms(2) d by (simp add: deletion_callback_def stop_monitor_maps emit_detached)
  then show ?thesis by (simp add: stop_monitor_maps)
qed

theorem callback_after_stop_keeps_maps_witness:
  "started backup_mounted
   \<and> map_of (filesystemMap backup_mounted) ''/Volumes/Backup'' = Some (of_device backup)
   \<and> deletion_callback ''/Volumes/Backup'' (stop_monitor backup_mounted)
       = (None, (stop_monitor backup_mounted)\<lparr>emitted := emitted backup_mounted @
            [Emit ''unmount'' (Some (Unmount (of_device backup))),
             Emit ''all'' (Some (Unmount (of_device backup))),
             Emit ''change'' None]\<rparr>)
   \<and> map_of (filesystemMap (snd (deletion_callback ''/Volumes/Backup'' (stop_monitor backup_mounted))))
        ''/Volumes/Backup'' = Some (of_device backup)
   \<and> map_of (deletionWatchers (snd (deletion_callback ''/Volumes/Backup'' (stop_monitor backup_mounted))))
        ''/Volumes/Backup'' = Some 0"
proof -
  have h1: "started backup_mounted" by code_simp
  have h2: "map_of (filesystemMap backup_mounted) ''/Volumes/Backup'' = Some (of_device backup)"
    by code_simp
  have h3: "map_of (deletionWatchers backup_mounted) ''/Volumes/Backup'' = Some 0"
    by code_simp
  from callback_after_stop_keeps_maps [OF h1 h2] h1 h2 h3 show ?thesis
    by (simp add: stop_monitor_maps)
qed

end
